theory Spec2Isabelle
  imports
    Complex_Main
    "HOL-Library.Char_ord"
    "HOL-Library.List_Lexorder"
    "HOL-Library.Log_Nat"
    "HOL-Library.Word"
begin

section \<open>Data model (audio-store.ts)\<close>

text \<open>
  The recording store of the caremates client. A \<open>Blob\<close> is its bytes together with
  its content type. A \<open>Recording\<close> carries a \<open>Blob\<close>; the object written to IndexedDB
  carries either the bytes and the mime type (what \<open>saveRecording\<close> writes) or, for an
  object written by some other means, a \<open>Blob\<close> in its \<open>blob\<close> property. Both shapes
  share every other field, so one record type is used for both, parameterised by the
  payload. \<open>uploadAttempts\<close> is an integer count; the other numbers are carried along
  unchanged.
\<close>

type_synonym byte = "8 word"

record Blob =
  arrayBuffer :: "byte list"
  type' :: string

datatype status = Local | Uploading | Synced | Failed

record 'p RecordingOf =
  id' :: string
  filename :: string
  payload :: 'p
  fileSize :: int
  duration :: real
  recordedAt :: string
  status :: status
  s3Key :: "string option"
  uploadAttempts :: int
  lastError :: "string option"

type_synonym Recording = "Blob RecordingOf"

abbreviation blob :: "Recording \<Rightarrow> Blob" where
  "blob \<equiv> payload"

datatype stored_payload =
  BlobProperty Blob
| DataMimeType "byte list" string

type_synonym raw = "stored_payload RecordingOf"

record PendingDelete =
  pd_id :: string
  pd_s3Key :: string

text \<open>The destructuring \<open>{ blob, ...rest }\<close> followed by \<open>{ ...rest, ... }\<close>: every field
  but the payload is copied.\<close>

definition rest_with :: "'q \<Rightarrow> 'p RecordingOf \<Rightarrow> 'q RecordingOf" where
  "rest_with p r =
     \<lparr> id' = id' r, filename = filename r, payload = p, fileSize = fileSize r,
       duration = duration r, recordedAt = recordedAt r, status = status r,
       s3Key = s3Key r, uploadAttempts = uploadAttempts r, lastError = lastError r \<rparr>"

text \<open>JavaScript's \<open>a || b\<close> on strings: the empty string is falsy.\<close>

definition or_else :: "string \<Rightarrow> string \<Rightarrow> string" where
  "or_else a b = (if a = [] then b else a)"

definition hydrateRecording :: "raw \<Rightarrow> Recording" where
  "hydrateRecording r =
     (case payload r of
        BlobProperty b \<Rightarrow> rest_with b r
      | DataMimeType d mimeType \<Rightarrow>
          rest_with \<lparr> arrayBuffer = d, type' = or_else mimeType ''audio/webm'' \<rparr> r)"

text \<open>The object \<open>saveRecording\<close> hands to \<open>put\<close>.\<close>

definition storable :: "Recording \<Rightarrow> raw" where
  "storable recording =
     rest_with (DataMimeType (arrayBuffer (blob recording)) (type' (blob recording))) recording"

subsection \<open>An object store with a key path\<close>

text \<open>
  An IndexedDB object store with key path \<open>id\<close> holds at most one object per key and
  lists its objects in ascending key order. It is a list of objects; \<open>put\<close> replaces the
  object with the same key or inserts the new one at its place in the order.
\<close>

fun idb_put :: "('a \<Rightarrow> string) \<Rightarrow> 'a \<Rightarrow> 'a list \<Rightarrow> 'a list" where
  "idb_put k x [] = [x]"
| "idb_put k x (y # ys) =
     (if k x = k y then x # ys
      else if k x < k y then x # y # ys
      else y # idb_put k x ys)"

definition idb_get :: "('a \<Rightarrow> string) \<Rightarrow> string \<Rightarrow> 'a list \<Rightarrow> 'a option" where
  "idb_get k key xs = find (\<lambda>y. k y = key) xs"

definition idb_delete :: "('a \<Rightarrow> string) \<Rightarrow> string \<Rightarrow> 'a list \<Rightarrow> 'a list" where
  "idb_delete k key xs = filter (\<lambda>y. k y \<noteq> key) xs"

section \<open>Errors, network replies and the event log\<close>

text \<open>
  What a JavaScript \<open>catch\<close> can receive here: a \<open>TypeError\<close> (how \<open>fetch\<close> reports a
  connection failure), a \<open>DOMException\<close> with its name and message (an aborted fetch has
  the name \<open>AbortError\<close>; a failed IndexedDB request is a \<open>DOMException\<close> too), the
  \<open>UploadError\<close> of upload.ts with its \<open>retryable\<close> flag, any other \<open>Error\<close>, and a
  thrown value that is not an \<open>Error\<close>.
\<close>

datatype js_error =
  TypeError string
| DOMException string string
| UploadError string bool
| OtherError string
| NotAnError

fun instanceof_Error :: "js_error \<Rightarrow> bool" where
  "instanceof_Error NotAnError = False"
| "instanceof_Error _ = True"

fun message :: "js_error \<Rightarrow> string" where
  "message (TypeError m) = m"
| "message (DOMException n m) = m"
| "message (UploadError m r) = m"
| "message (OtherError m) = m"
| "message NotAnError = []"

record UploadUrlResponse =
  url :: string
  key :: string

text \<open>The body \<open>saveRecordingToDb\<close> posts.\<close>

record DbData =
  d_id :: string
  d_filename :: string
  d_s3Key :: "string option"
  d_fileSize :: int
  d_duration :: real
  d_recordedAt :: string
  d_status :: status
  d_lastError :: "string option"

datatype request =
  GetUploadUrl string
| PutObject string Blob string
| SaveRecording DbData
| DeleteRecordingReq string string
| Health

text \<open>
  A \<open>fetch\<close> either rejects or resolves with a response: its status code and what
  \<open>response.json()\<close> followed by \<open>data.result.data.json\<close> gives (an error when the body
  does not parse or has another shape). \<open>response.ok\<close> is a status from 200 to 299.
\<close>

datatype fetch_reply =
  Rejected js_error
| Response nat "js_error + UploadUrlResponse"

definition ok :: "nat \<Rightarrow> bool" where
  "ok st = (200 \<le> st \<and> st \<le> 299)"

record Extras =
  uploadAttempts' :: "int option"
  lastError' :: "string option"
  s3Key' :: "string option"

datatype db_op =
  SaveRecordingOp raw
| GetAllRecordingsOp
| DeleteRecordingOp string
| GetRecordingByIdOp string
| UpdateRecordingStatusOp string status Extras
| AddPendingDeleteOp PendingDelete
| GetAllPendingDeletesOp
| RemovePendingDeleteOp string

record UploadResult =
  success :: bool
  recordingId :: string
  r_status :: status
  error :: "string option"

text \<open>
  Every effect of the worker is logged, with its outcome: a fetch with the reply it got,
  a store operation with the error of a failed request (\<open>None\<close> when the transaction
  completed), a sleep with its delay in milliseconds, a status message posted to the
  pages, a registration for background sync, and the arming of the retry timer.
\<close>

datatype event =
  Fetch request fetch_reply
| Db db_op "js_error option"
| Sleep real
| PostMessage UploadResult
| SyncRegister
| SetTimeout nat

text \<open>
  The environment decides every outcome the code cannot: the reply to the fetch issued
  as the \<open>n\<close>-th effect, whether the store operation issued as the \<open>n\<close>-th effect fails,
  what \<open>Math.random()\<close> returns there, what \<open>navigator.onLine\<close> reads there, and the two
  platform facts (\<open>isSafari\<close>, and whether \<open>sync\<close> is in the registration).
\<close>

record env =
  net :: "nat \<Rightarrow> fetch_reply"
  dbFault :: "nat \<Rightarrow> js_error option"
  random :: "nat \<Rightarrow> real"
  onLine :: "nat \<Rightarrow> bool"
  isSafari :: bool
  hasSync :: bool

record world =
  recordings :: "raw list"
  pendingDeletes :: "PendingDelete list"
  retryTimer :: bool
  trace :: "event list"

definition now :: "world \<Rightarrow> nat" where
  "now w = length (trace w)"

definition emit :: "event \<Rightarrow> world \<Rightarrow> world" where
  "emit e w = w\<lparr>trace := trace w @ [e]\<rparr>"

section \<open>The store operations (audio-store.ts)\<close>

text \<open>
  Each operation is one logged effect. When the environment fails it (\<open>openDB\<close>, the
  request or the transaction reports an error) the promise rejects with that error and
  the store is unchanged; otherwise the transaction completes.
\<close>

definition saveRecording :: "env \<Rightarrow> Recording \<Rightarrow> world \<Rightarrow> (js_error + unit) \<times> world" where
  "saveRecording en recording w =
     (case dbFault en (now w) of
        Some e \<Rightarrow> (Inl e, emit (Db (SaveRecordingOp (storable recording)) (Some e)) w)
      | None \<Rightarrow>
          (Inr (),
           emit (Db (SaveRecordingOp (storable recording)) None)
             (w\<lparr>recordings := idb_put id' (storable recording) (recordings w)\<rparr>)))"

definition getAllRecordings :: "env \<Rightarrow> world \<Rightarrow> (js_error + Recording list) \<times> world" where
  "getAllRecordings en w =
     (case dbFault en (now w) of
        Some e \<Rightarrow> (Inl e, emit (Db GetAllRecordingsOp (Some e)) w)
      | None \<Rightarrow> (Inr (map hydrateRecording (recordings w)), emit (Db GetAllRecordingsOp None) w))"

definition deleteRecording :: "env \<Rightarrow> string \<Rightarrow> world \<Rightarrow> (js_error + unit) \<times> world" where
  "deleteRecording en i w =
     (case dbFault en (now w) of
        Some e \<Rightarrow> (Inl e, emit (Db (DeleteRecordingOp i) (Some e)) w)
      | None \<Rightarrow>
          (Inr (),
           emit (Db (DeleteRecordingOp i) None)
             (w\<lparr>recordings := idb_delete id' i (recordings w)\<rparr>)))"

definition getRecordingById ::
  "env \<Rightarrow> string \<Rightarrow> world \<Rightarrow> (js_error + Recording option) \<times> world" where
  "getRecordingById en i w =
     (case dbFault en (now w) of
        Some e \<Rightarrow> (Inl e, emit (Db (GetRecordingByIdOp i) (Some e)) w)
      | None \<Rightarrow>
          (Inr (map_option hydrateRecording (idb_get id' i (recordings w))),
           emit (Db (GetRecordingByIdOp i) None) w))"

definition getRecordingsByStatus ::
  "env \<Rightarrow> status list \<Rightarrow> world \<Rightarrow> (js_error + Recording list) \<times> world" where
  "getRecordingsByStatus en statuses w =
     (case getAllRecordings en w of
        (Inl e, w') \<Rightarrow> (Inl e, w')
      | (Inr all, w') \<Rightarrow> (Inr (filter (\<lambda>r. status r \<in> set statuses) all), w'))"

text \<open>The object \<open>updateRecordingStatus\<close> builds from the stored one.\<close>

definition updated :: "raw \<Rightarrow> status \<Rightarrow> Extras \<Rightarrow> raw" where
  "updated r st extras =
     r\<lparr> status := st,
        uploadAttempts :=
          (case uploadAttempts' extras of Some n \<Rightarrow> n | None \<Rightarrow> uploadAttempts r),
        s3Key := (case s3Key' extras of Some k \<Rightarrow> Some k | None \<Rightarrow> s3Key r),
        lastError :=
          (case lastError' extras of
             Some e \<Rightarrow> Some e
           | None \<Rightarrow> (if st = Synced then None else lastError r)) \<rparr>"

definition updateRecordingStatus ::
  "env \<Rightarrow> string \<Rightarrow> status \<Rightarrow> Extras \<Rightarrow> world \<Rightarrow> (js_error + Recording option) \<times> world" where
  "updateRecordingStatus en i st extras w =
     (case dbFault en (now w) of
        Some e \<Rightarrow> (Inl e, emit (Db (UpdateRecordingStatusOp i st extras) (Some e)) w)
      | None \<Rightarrow>
          (case idb_get id' i (recordings w) of
             None \<Rightarrow> (Inr None, emit (Db (UpdateRecordingStatusOp i st extras) None) w)
           | Some r \<Rightarrow>
               (Inr (Some (hydrateRecording (updated r st extras))),
                emit (Db (UpdateRecordingStatusOp i st extras) None)
                  (w\<lparr>recordings := idb_put id' (updated r st extras) (recordings w)\<rparr>))))"

definition addPendingDelete :: "env \<Rightarrow> PendingDelete \<Rightarrow> world \<Rightarrow> (js_error + unit) \<times> world" where
  "addPendingDelete en entry w =
     (case dbFault en (now w) of
        Some e \<Rightarrow> (Inl e, emit (Db (AddPendingDeleteOp entry) (Some e)) w)
      | None \<Rightarrow>
          (Inr (),
           emit (Db (AddPendingDeleteOp entry) None)
             (w\<lparr>pendingDeletes := idb_put pd_id entry (pendingDeletes w)\<rparr>)))"

definition getAllPendingDeletes ::
  "env \<Rightarrow> world \<Rightarrow> (js_error + PendingDelete list) \<times> world" where
  "getAllPendingDeletes en w =
     (case dbFault en (now w) of
        Some e \<Rightarrow> (Inl e, emit (Db GetAllPendingDeletesOp (Some e)) w)
      | None \<Rightarrow> (Inr (pendingDeletes w), emit (Db GetAllPendingDeletesOp None) w))"

definition removePendingDelete :: "env \<Rightarrow> string \<Rightarrow> world \<Rightarrow> (js_error + unit) \<times> world" where
  "removePendingDelete en i w =
     (case dbFault en (now w) of
        Some e \<Rightarrow> (Inl e, emit (Db (RemovePendingDeleteOp i) (Some e)) w)
      | None \<Rightarrow>
          (Inr (),
           emit (Db (RemovePendingDeleteOp i) None)
             (w\<lparr>pendingDeletes := idb_delete pd_id i (pendingDeletes w)\<rparr>)))"

section \<open>The upload pipeline (upload.ts)\<close>

definition MAX_ATTEMPTS :: int where
  "MAX_ATTEMPTS = 3"

fun isNetworkError :: "js_error \<Rightarrow> bool" where
  "isNetworkError (TypeError m) = True"
| "isNetworkError (DOMException n m) = (n = ''AbortError'')"
| "isNetworkError _ = False"

definition isRetryableStatus :: "nat \<Rightarrow> bool" where
  "isRetryableStatus st = (st \<ge> 500 \<or> st = 408 \<or> st = 429)"

fun isRetryableError :: "js_error \<Rightarrow> bool" where
  "isRetryableError (UploadError m retryable) = retryable"
| "isRetryableError _ = False"

text \<open>
  The delays are JavaScript numbers, IEEE 754 doubles: zero, or a real \<open>m * 2^e\<close> (or its
  negative) with \<open>m < 2^53\<close> and \<open>e \<ge> -1074\<close>. \<open>binade x\<close> is the binade of a positive
  real, the largest \<open>e\<close> with \<open>2^e \<le> x\<close>; \<open>ulp x\<close> is the spacing of the doubles around \<open>x\<close>;
  \<open>roundToDouble x\<close> is the double nearest to \<open>x\<close>, a tie going to the even mantissa. It is
  what \<open>+\<close> and \<open>*\<close> return for the exact sum and product of their arguments, and
  \<open>Math.pow\<close> for a power of two. The delays stay far below the largest double, so the
  overflow to \<open>Infinity\<close> is left out.
\<close>

definition binade :: "real \<Rightarrow> int" where
  "binade x = (if 1 \<le> x then bitlen \<lfloor>x\<rfloor> - 1 else - bitlen (\<lceil>1 / x\<rceil> - 1))"

definition ulp :: "real \<Rightarrow> real" where
  "ulp x = 2 powi (max (binade \<bar>x\<bar> - 52) (- 1074))"

definition roundTiesToEven :: "real \<Rightarrow> int" where
  "roundTiesToEven y =
     (if y - of_int \<lfloor>y\<rfloor> < 1 / 2 \<or> (y - of_int \<lfloor>y\<rfloor> = 1 / 2 \<and> even \<lfloor>y\<rfloor>)
      then \<lfloor>y\<rfloor> else \<lfloor>y\<rfloor> + 1)"

definition roundToDouble :: "real \<Rightarrow> real" where
  "roundToDouble x = of_int (roundTiesToEven (x / ulp x)) * ulp x"

definition number_add :: "real \<Rightarrow> real \<Rightarrow> real" where
  "number_add x y = roundToDouble (x + y)"

definition number_multiply :: "real \<Rightarrow> real \<Rightarrow> real" where
  "number_multiply x y = roundToDouble (x * y)"

definition Math_pow :: "real \<Rightarrow> int \<Rightarrow> real" where
  "Math_pow b n = roundToDouble (b powi n)"

text \<open>\<open>backoffDelay\<close>, with the value \<open>Math.random()\<close> returned as its second argument.\<close>

definition backoffDelay :: "int \<Rightarrow> real \<Rightarrow> real" where
  "backoffDelay attempt rnd =
     (let base = number_multiply 1000 (Math_pow 2 attempt);
          jitter = number_add (1 / 2) rnd
      in number_multiply base jitter)"

definition sleep :: "real \<Rightarrow> world \<Rightarrow> world" where
  "sleep ms w = emit (Sleep ms) w"

text \<open>
  \<open>fetch\<close> is one logged effect whose reply the environment gives. \<open>fetchWithTimeout\<close> is
  a \<open>fetch\<close> that the timer may abort: the abort is the reply
  \<open>Rejected (DOMException ''AbortError'' _)\<close>.
\<close>

definition fetch :: "env \<Rightarrow> request \<Rightarrow> world \<Rightarrow> fetch_reply \<times> world" where
  "fetch en req w = (net en (now w), emit (Fetch req (net en (now w))) w)"

text \<open>The decimal numeral a template literal prints for a status code.\<close>

definition digit :: "nat \<Rightarrow> char" where
  "digit d = char_of (of_char CHR ''0'' + d)"

fun decimal :: "nat \<Rightarrow> string" where
  "decimal n = (if 10 \<le> n then decimal (n div 10) @ [digit (n mod 10)] else [digit n])"

definition getPresignedUrl ::
  "env \<Rightarrow> string \<Rightarrow> world \<Rightarrow> (js_error + UploadUrlResponse) \<times> world" where
  "getPresignedUrl en fname w =
     (case fetch en (GetUploadUrl fname) w of
        (Rejected err, w') \<Rightarrow>
          (if isNetworkError err then (Inl err, w')
           else (Inl (UploadError ''Failed to get presigned URL'' False), w'))
      | (Response st body, w') \<Rightarrow>
          (if \<not> ok st then
             (Inl (UploadError (''Failed to get presigned URL: '' @ decimal st)
                     (isRetryableStatus st)), w')
           else (body, w')))"

definition putToS3 ::
  "env \<Rightarrow> string \<Rightarrow> Blob \<Rightarrow> string \<Rightarrow> world \<Rightarrow> (js_error + unit) \<times> world" where
  "putToS3 en u b contentType w =
     (case fetch en (PutObject u b contentType) w of
        (Rejected err, w') \<Rightarrow>
          (if isNetworkError err then (Inl err, w')
           else (Inl (UploadError ''S3 upload failed'' False), w'))
      | (Response st body, w') \<Rightarrow>
          (if \<not> ok st then
             (Inl (UploadError (''S3 upload failed: '' @ decimal st)
                     (isRetryableStatus st)), w')
           else (Inr (), w')))"

definition saveRecordingToDb :: "env \<Rightarrow> DbData \<Rightarrow> world \<Rightarrow> (js_error + unit) \<times> world" where
  "saveRecordingToDb en d w =
     (case fetch en (SaveRecording d) w of
        (Rejected err, w') \<Rightarrow>
          (if isNetworkError err then (Inl err, w')
           else (Inl (UploadError ''Failed to save to database'' False), w'))
      | (Response st body, w') \<Rightarrow>
          (if \<not> ok st then
             (Inl (UploadError (''Failed to save to database: '' @ decimal st)
                     (isRetryableStatus st)), w')
           else (Inr (), w')))"

text \<open>The object literal passed to \<open>saveRecordingToDb\<close>.\<close>

definition dbData :: "Recording \<Rightarrow> string option \<Rightarrow> status \<Rightarrow> string option \<Rightarrow> DbData" where
  "dbData recording k st le =
     \<lparr> d_id = id' recording, d_filename = filename recording, d_s3Key = k,
       d_fileSize = fileSize recording, d_duration = duration recording,
       d_recordedAt = recordedAt recording, d_status = st, d_lastError = le \<rparr>"

text \<open>\<open>!s3Key\<close>: an absent key and the empty string are both falsy.\<close>

definition falsy :: "string option \<Rightarrow> bool" where
  "falsy k = (k = None \<or> k = Some [])"

definition noExtras :: Extras where
  "noExtras = \<lparr> uploadAttempts' = None, lastError' = None, s3Key' = None \<rparr>"

text \<open>
  The \<open>if (!s3Key)\<close> block of the \<open>try\<close>. It returns the local variable \<open>s3Key\<close> as it is
  when the block is left, also when it is left by an exception.
\<close>

definition transferObject ::
  "env \<Rightarrow> string \<Rightarrow> Recording \<Rightarrow> string option \<Rightarrow> world
     \<Rightarrow> (js_error + unit) \<times> string option \<times> world" where
  "transferObject en rid recording k w =
     (if falsy k then
        (case getPresignedUrl en (filename recording) w of
           (Inl e, w1) \<Rightarrow> (Inl e, k, w1)
         | (Inr u, w1) \<Rightarrow>
             (case putToS3 en (url u) (blob recording)
                     (or_else (type' (blob recording)) ''audio/webm'') w1 of
                (Inl e, w2) \<Rightarrow> (Inl e, k, w2)
              | (Inr _, w2) \<Rightarrow>
                  (case updateRecordingStatus en rid Uploading
                          (noExtras\<lparr>s3Key' := Some (key u)\<rparr>) w2 of
                     (Inl e, w3) \<Rightarrow> (Inl e, Some (key u), w3)
                   | (Inr _, w3) \<Rightarrow> (Inr (), Some (key u), w3))))
      else (Inr (), k, w))"

text \<open>The whole \<open>try\<close> block: \<open>Inr\<close> when it reaches its \<open>return\<close>, \<open>Inl\<close> the caught error.\<close>

definition tryBlock ::
  "env \<Rightarrow> string \<Rightarrow> Recording \<Rightarrow> string option \<Rightarrow> world
     \<Rightarrow> (js_error + unit) \<times> string option \<times> world" where
  "tryBlock en rid recording k w =
     (case transferObject en rid recording k w of
        (Inl e, k', w1) \<Rightarrow> (Inl e, k', w1)
      | (Inr _, k', w1) \<Rightarrow>
          (case saveRecordingToDb en (dbData recording k' Synced None) w1 of
             (Inl e, w2) \<Rightarrow> (Inl e, k', w2)
           | (Inr _, w2) \<Rightarrow>
               (case deleteRecording en rid w2 of
                  (Inl e, w3) \<Rightarrow> (Inl e, k', w3)
                | (Inr _, w3) \<Rightarrow> (Inr (), k', w3))))"

text \<open>
  The \<open>for\<close> loop is left by a \<open>return\<close>, by \<open>break\<close> or the loop condition (with the
  local variables \<open>s3Key\<close> and \<open>lastError\<close>), or by an exception of a store operation
  outside the \<open>try\<close>.
\<close>

datatype loop_exit =
  Return UploadResult
| Break "string option" "string option"

text \<open>
  The body of the \<open>for\<close> loop, for one value of \<open>attempt\<close>: it ends with an exception,
  with the loop left (\<open>Inl\<close>), or at the end of the \<open>catch\<close> block with the values of
  \<open>s3Key\<close> and \<open>lastError\<close> for the next pass (\<open>Inr\<close>).
\<close>

definition iteration ::
  "env \<Rightarrow> string \<Rightarrow> Recording \<Rightarrow> int \<Rightarrow> int \<Rightarrow> string option \<Rightarrow> world
     \<Rightarrow> (js_error + loop_exit + string option \<times> string option) \<times> world" where
  "iteration en rid recording startAttempt attempt k w =
     (case updateRecordingStatus en rid Uploading
             (noExtras\<lparr>uploadAttempts' := Some (attempt + 1)\<rparr>)
             (if attempt > startAttempt
              then sleep (backoffDelay (attempt - 1) (random en (now w))) w
              else w) of
        (Inl e, w1) \<Rightarrow> (Inl e, w1)
      | (Inr _, w1) \<Rightarrow>
          (case tryBlock en rid recording k w1 of
             (Inr _, k', w2) \<Rightarrow>
               (Inr (Inl (Return \<lparr> success = True, recordingId = rid, r_status = Synced,
                                   error = None \<rparr>)), w2)
           | (Inl err, k', w2) \<Rightarrow>
               (if isNetworkError err then
                  (case updateRecordingStatus en rid Local
                          (noExtras\<lparr>uploadAttempts' := Some startAttempt\<rparr>) w2 of
                     (Inl e, w3) \<Rightarrow> (Inl e, w3)
                   | (Inr _, w3) \<Rightarrow>
                       (Inr (Inl (Return \<lparr> success = False, recordingId = rid,
                                           r_status = Local,
                                           error = Some (if instanceof_Error err then message err
                                                         else ''Unknown error'') \<rparr>)), w3))
                else if \<not> isRetryableError err then
                  (Inr (Inl (Break k' (Some (if instanceof_Error err then message err
                                             else ''Unknown error'')))), w2)
                else if attempt + 1 \<ge> MAX_ATTEMPTS then
                  (Inr (Inl (Break k' (Some (if instanceof_Error err then message err
                                             else ''Unknown error'')))), w2)
                else
                  (Inr (Inr (k', Some (if instanceof_Error err then message err
                                       else ''Unknown error''))), w2))))"

function uploadLoop ::
  "env \<Rightarrow> string \<Rightarrow> Recording \<Rightarrow> int \<Rightarrow> int \<Rightarrow> string option \<Rightarrow> string option \<Rightarrow> world
     \<Rightarrow> (js_error + loop_exit) \<times> world" where
  "uploadLoop en rid recording startAttempt attempt k le w =
     (if \<not> attempt < MAX_ATTEMPTS then (Inr (Break k le), w)
      else
        (case iteration en rid recording startAttempt attempt k w of
           (Inl e, w') \<Rightarrow> (Inl e, w')
         | (Inr (Inl x), w') \<Rightarrow> (Inr x, w')
         | (Inr (Inr (k', le')), w') \<Rightarrow>
             uploadLoop en rid recording startAttempt (attempt + 1) k' le' w'))"
  by pat_completeness auto
termination
  by (relation "measure (\<lambda>(en, rid, recording, startAttempt, attempt, k, le, w).
                  nat (MAX_ATTEMPTS - attempt))") auto

text \<open>What follows the loop: the record is marked failed and the server is told, its
  answer ignored.\<close>

definition terminalFailure ::
  "env \<Rightarrow> string \<Rightarrow> Recording \<Rightarrow> string option \<Rightarrow> string option \<Rightarrow> world
     \<Rightarrow> (js_error + UploadResult) \<times> world" where
  "terminalFailure en rid recording k le w =
     (case updateRecordingStatus en rid Failed
             (noExtras\<lparr>uploadAttempts' := Some MAX_ATTEMPTS, lastError' := le\<rparr>) w of
        (Inl e, w1) \<Rightarrow> (Inl e, w1)
      | (Inr _, w1) \<Rightarrow>
          (Inr \<lparr> success = False, recordingId = rid, r_status = Failed, error = le \<rparr>,
           snd (saveRecordingToDb en (dbData recording k Failed le) w1)))"

definition uploadRecording ::
  "env \<Rightarrow> string \<Rightarrow> world \<Rightarrow> (js_error + UploadResult) \<times> world" where
  "uploadRecording en rid w =
     (case getRecordingById en rid w of
        (Inl e, w1) \<Rightarrow> (Inl e, w1)
      | (Inr None, w1) \<Rightarrow>
          (Inr \<lparr> success = False, recordingId = rid, r_status = Failed,
                 error = Some ''Recording not found'' \<rparr>, w1)
      | (Inr (Some recording), w1) \<Rightarrow>
          (if status recording = Synced then
             (Inr \<lparr> success = True, recordingId = rid, r_status = Synced, error = None \<rparr>, w1)
           else if uploadAttempts recording \<ge> MAX_ATTEMPTS then
             (Inr \<lparr> success = False, recordingId = rid, r_status = Failed,
                    error = Some (case lastError recording of
                                    Some e \<Rightarrow> e
                                  | None \<Rightarrow> ''Maximum upload attempts reached'') \<rparr>, w1)
           else
             (case uploadLoop en rid recording (uploadAttempts recording)
                     (uploadAttempts recording) (s3Key recording) None w1 of
                (Inl e, w2) \<Rightarrow> (Inl e, w2)
              | (Inr (Return r), w2) \<Rightarrow> (Inr r, w2)
              | (Inr (Break k le), w2) \<Rightarrow> terminalFailure en rid recording k le w2)))"

definition deleteRecordingFromServer ::
  "env \<Rightarrow> string \<Rightarrow> string \<Rightarrow> world \<Rightarrow> (js_error + bool) \<times> world" where
  "deleteRecordingFromServer en k i w =
     (case fetch en (DeleteRecordingReq k i) w of
        (Rejected err, w') \<Rightarrow> (Inl err, w')
      | (Response st body, w') \<Rightarrow> (Inr (ok st), w'))"

fun uploadEach ::
  "env \<Rightarrow> Recording list \<Rightarrow> UploadResult list \<Rightarrow> world
     \<Rightarrow> (js_error + UploadResult list) \<times> world" where
  "uploadEach en [] results w = (Inr results, w)"
| "uploadEach en (recording # pending) results w =
     (case uploadRecording en (id' recording) w of
        (Inl e, w1) \<Rightarrow> (Inl e, w1)
      | (Inr result, w1) \<Rightarrow> uploadEach en pending (results @ [result]) w1)"

definition uploadAllPending ::
  "env \<Rightarrow> world \<Rightarrow> (js_error + UploadResult list) \<times> world" where
  "uploadAllPending en w =
     (case getRecordingsByStatus en [Local, Uploading] w of
        (Inl e, w1) \<Rightarrow> (Inl e, w1)
      | (Inr pending, w1) \<Rightarrow> uploadEach en pending [] w1)"

section \<open>The worker (sw.ts)\<close>

text \<open>
  \<open>broadcastStatus\<close> posts the result to the open pages, \<open>registerSync\<close> registers the
  tag \<open>upload-recordings\<close> where the platform has background sync, and \<open>scheduleRetry\<close>
  arms the retry timer unless one is pending. The timer's callback runs outside the
  lane and puts its work into the lane through \<open>enqueue\<close>.
\<close>

definition broadcastStatus :: "UploadResult \<Rightarrow> world \<Rightarrow> world" where
  "broadcastStatus result w = emit (PostMessage result) w"

definition registerSync :: "env \<Rightarrow> world \<Rightarrow> world" where
  "registerSync en w = (if hasSync en then emit SyncRegister w else w)"

definition scheduleRetry :: "world \<Rightarrow> world" where
  "scheduleRetry w =
     (if retryTimer w then w else emit (SetTimeout 5000) (w\<lparr>retryTimer := True\<rparr>))"

definition checkConnectivity :: "env \<Rightarrow> world \<Rightarrow> bool \<times> world" where
  "checkConnectivity en w =
     (case fetch en Health w of
        (Rejected err, w') \<Rightarrow> (False, w')
      | (Response st body, w') \<Rightarrow> (ok st, w'))"

type_synonym task = "world \<Rightarrow> (js_error + unit) \<times> world"

definition afterUpload :: "env \<Rightarrow> UploadResult \<Rightarrow> world \<Rightarrow> world" where
  "afterUpload en result w =
     (if \<not> success result then (if isSafari en then scheduleRetry w else registerSync en w)
      else w)"

definition handleUpload :: "env \<Rightarrow> string \<Rightarrow> task" where
  "handleUpload en rid w =
     (if \<not> onLine en (now w) then (Inr (), registerSync en w)
      else
        (case (if isSafari en then checkConnectivity en w else (True, w)) of
           (False, w1) \<Rightarrow> (Inr (), scheduleRetry w1)
         | (True, w1) \<Rightarrow>
             (case uploadRecording en rid
                     (broadcastStatus \<lparr> success = False, recordingId = rid,
                                        r_status = Uploading, error = None \<rparr> w1) of
                (Inl e, w2) \<Rightarrow> (Inl e, w2)
              | (Inr result, w2) \<Rightarrow> (Inr (), afterUpload en result (broadcastStatus result w2)))))"

definition handleDelete :: "env \<Rightarrow> string \<Rightarrow> string \<Rightarrow> task" where
  "handleDelete en rid k w =
     (if \<not> onLine en (now w) then
        (case addPendingDelete en \<lparr> pd_id = rid, pd_s3Key = k \<rparr> w of
           (Inl e, w1) \<Rightarrow> (Inl e, w1)
         | (Inr _, w1) \<Rightarrow> (Inr (), registerSync en w1))
      else
        (case deleteRecordingFromServer en k rid w of
           (Inr deleted, w1) \<Rightarrow> (Inr (), w1)
         | (Inl err, w1) \<Rightarrow>
             (if isNetworkError err then
                (case addPendingDelete en \<lparr> pd_id = rid, pd_s3Key = k \<rparr> w1 of
                   (Inl e, w2) \<Rightarrow> (Inl e, w2)
                 | (Inr _, w2) \<Rightarrow>
                     (Inr (), if isSafari en then scheduleRetry w2 else registerSync en w2))
              else (Inr (), w1))))"

text \<open>The body of the \<open>for\<close> loop of \<open>handleRetryDeletes\<close>, over the entries left.\<close>

fun retryEach :: "env \<Rightarrow> PendingDelete list \<Rightarrow> world \<Rightarrow> world" where
  "retryEach en [] w = w"
| "retryEach en (entry # pending) w =
     (case deleteRecordingFromServer en (pd_s3Key entry) (pd_id entry) w of
        (Inl err, w1) \<Rightarrow> retryEach en pending w1
      | (Inr deleted, w1) \<Rightarrow>
          (if deleted then retryEach en pending (snd (removePendingDelete en (pd_id entry) w1))
           else retryEach en pending w1))"

definition handleRetryDeletes :: "env \<Rightarrow> task" where
  "handleRetryDeletes en w =
     (case getAllPendingDeletes en w of
        (Inl e, w1) \<Rightarrow> (Inl e, w1)
      | (Inr pending, w1) \<Rightarrow> (Inr (), retryEach en pending w1))"

definition handleRetryAll :: "env \<Rightarrow> task" where
  "handleRetryAll en w =
     (case handleRetryDeletes en w of
        (Inl e, w1) \<Rightarrow> (Inl e, w1)
      | (Inr _, w1) \<Rightarrow>
          (case uploadAllPending en w1 of
             (Inl e, w2) \<Rightarrow> (Inl e, w2)
           | (Inr results, w2) \<Rightarrow>
               (case getAllPendingDeletes en (fold broadcastStatus results w2) of
                  (Inl e, w3) \<Rightarrow> (Inl e, w3)
                | (Inr stillPending, w3) \<Rightarrow>
                    (Inr (),
                     if (\<exists>r \<in> set results. r_status r = Local) \<or> length stillPending > 0
                     then scheduleRetry w3 else w3))))"

subsection \<open>The lane\<close>

text \<open>
  The lane in summary, for what does not depend on when the messages arrive: \<open>uploadQueue\<close>
  is a promise, and a promise of the lane is what will have happened when it settles, a
  computation on the world that ends fulfilled (\<open>Inr\<close>) or rejected (\<open>Inl\<close>).
  \<open>p.then(f, g)\<close> settles as \<open>f\<close> does when \<open>p\<close> is fulfilled and as \<open>g\<close> does when \<open>p\<close> is
  rejected; a task takes no argument, so both handlers ignore theirs. The event loop
  below has the promises, the tasks in flight and the messages arriving between their
  steps; this summary is what it comes to whenever the lane is idle.
\<close>

definition promise_resolve :: task where
  "promise_resolve w = (Inr (), w)"

definition promise_then :: "task \<Rightarrow> (unit \<Rightarrow> task) \<Rightarrow> (js_error \<Rightarrow> task) \<Rightarrow> task" where
  "promise_then p onFulfilled onRejected w =
     (case p w of
        (Inr v, w') \<Rightarrow> onFulfilled v w'
      | (Inl e, w') \<Rightarrow> onRejected e w')"

definition enqueue :: "task \<Rightarrow> task \<Rightarrow> task" where
  "enqueue t uploadQueue = promise_then uploadQueue (\<lambda>_. t) (\<lambda>_. t)"

datatype PageToSwMessage =
  UPLOAD_RECORDING string
| DELETE_RECORDING string string
| RETRY_ALL_UPLOADS

text \<open>The \<open>message\<close> listener: the lane after the message has been received.\<close>

fun onMessage :: "env \<Rightarrow> PageToSwMessage \<Rightarrow> task \<Rightarrow> task" where
  "onMessage en (UPLOAD_RECORDING rid) uploadQueue = enqueue (handleUpload en rid) uploadQueue"
| "onMessage en (DELETE_RECORDING rid k) uploadQueue =
     enqueue (handleDelete en rid k) uploadQueue"
| "onMessage en RETRY_ALL_UPLOADS uploadQueue = enqueue (handleRetryAll en) uploadQueue"

subsection \<open>The tasks, step by step\<close>

text \<open>
  An \<open>async\<close> function is a computation that gives up control at every \<open>await\<close>: it is
  \<open>Done\<close> with its result, or it waits for an effect. \<open>Await g k\<close> takes one step when it is
  resumed in the world \<open>w\<close>: the world becomes \<open>g w\<close> and the computation goes on as \<open>k w\<close>.
  Between two steps of a computation the event loop may run anything else. \<open>run\<close> takes all
  the steps of a computation without interruption.

  \<open>await op\<close> is the step of an operation of the model (one logged effect) returning its
  result, \<open>perform op\<close> the step of an effect without result, \<open>andThen\<close> the sequence of two
  computations, and \<open>sync f\<close> a computation that first reads the world, in the same step as
  its first effect (the code before the first \<open>await\<close> runs at once).
\<close>

datatype 'a proc =
  Done 'a
| Await "world \<Rightarrow> world" "world \<Rightarrow> 'a proc"

primrec run :: "'a proc \<Rightarrow> world \<Rightarrow> 'a \<times> world" where
  "run (Done a) w = (a, w)"
| "run (Await g k) w = run (k w) (g w)"

definition await :: "(world \<Rightarrow> 'r \<times> world) \<Rightarrow> 'r proc" where
  "await op = Await (\<lambda>w. snd (op w)) (\<lambda>w. Done (fst (op w)))"

definition perform :: "(world \<Rightarrow> world) \<Rightarrow> unit proc" where
  "perform op = Await op (\<lambda>w. Done ())"

primrec andThen :: "'a proc \<Rightarrow> ('a \<Rightarrow> 'b proc) \<Rightarrow> 'b proc" where
  "andThen (Done a) f = f a"
| "andThen (Await g k) f = Await g (\<lambda>w. andThen (k w) f)"

definition sync :: "(world \<Rightarrow> 'a proc) \<Rightarrow> 'a proc" where
  "sync f =
     Await (\<lambda>w. case f w of Done a \<Rightarrow> w | Await g k \<Rightarrow> g w)
           (\<lambda>w. case f w of Done a \<Rightarrow> Done a | Await g k \<Rightarrow> k w)"

text \<open>
  The functions of upload.ts again, as computations: one step for every operation that the
  definitions above thread the world through, in the same order and with the same case
  distinctions on the results.
\<close>

definition transferObject_proc ::
  "env \<Rightarrow> string \<Rightarrow> Recording \<Rightarrow> string option \<Rightarrow> ((js_error + unit) \<times> string option) proc" where
  "transferObject_proc en rid recording k =
     (if falsy k then
        andThen (await (getPresignedUrl en (filename recording))) (\<lambda>r1.
          case r1 of
            Inl e \<Rightarrow> Done (Inl e, k)
          | Inr u \<Rightarrow>
              andThen (await (putToS3 en (url u) (blob recording)
                                (or_else (type' (blob recording)) ''audio/webm''))) (\<lambda>r2.
                case r2 of
                  Inl e \<Rightarrow> Done (Inl e, k)
                | Inr _ \<Rightarrow>
                    andThen (await (updateRecordingStatus en rid Uploading
                                      (noExtras\<lparr>s3Key' := Some (key u)\<rparr>))) (\<lambda>r3.
                      case r3 of
                        Inl e \<Rightarrow> Done (Inl e, Some (key u))
                      | Inr _ \<Rightarrow> Done (Inr (), Some (key u)))))
      else Done (Inr (), k))"

definition tryBlock_proc ::
  "env \<Rightarrow> string \<Rightarrow> Recording \<Rightarrow> string option \<Rightarrow> ((js_error + unit) \<times> string option) proc" where
  "tryBlock_proc en rid recording k =
     andThen (transferObject_proc en rid recording k) (\<lambda>(r1, k').
       case r1 of
         Inl e \<Rightarrow> Done (Inl e, k')
       | Inr _ \<Rightarrow>
           andThen (await (saveRecordingToDb en (dbData recording k' Synced None))) (\<lambda>r2.
             case r2 of
               Inl e \<Rightarrow> Done (Inl e, k')
             | Inr _ \<Rightarrow>
                 andThen (await (deleteRecording en rid)) (\<lambda>r3.
                   case r3 of
                     Inl e \<Rightarrow> Done (Inl e, k')
                   | Inr _ \<Rightarrow> Done (Inr (), k'))))"

definition iteration_proc ::
  "env \<Rightarrow> string \<Rightarrow> Recording \<Rightarrow> int \<Rightarrow> int \<Rightarrow> string option
     \<Rightarrow> (js_error + loop_exit + string option \<times> string option) proc" where
  "iteration_proc en rid recording startAttempt attempt k =
     andThen (if attempt > startAttempt
              then perform (\<lambda>w. sleep (backoffDelay (attempt - 1) (random en (now w))) w)
              else Done ()) (\<lambda>_.
       andThen (await (updateRecordingStatus en rid Uploading
                         (noExtras\<lparr>uploadAttempts' := Some (attempt + 1)\<rparr>))) (\<lambda>r1.
         case r1 of
           Inl e \<Rightarrow> Done (Inl e)
         | Inr _ \<Rightarrow>
             andThen (tryBlock_proc en rid recording k) (\<lambda>(r2, k').
               case r2 of
                 Inr _ \<Rightarrow>
                   Done (Inr (Inl (Return \<lparr> success = True, recordingId = rid, r_status = Synced,
                                           error = None \<rparr>)))
               | Inl err \<Rightarrow>
                   (if isNetworkError err then
                      andThen (await (updateRecordingStatus en rid Local
                                        (noExtras\<lparr>uploadAttempts' := Some startAttempt\<rparr>))) (\<lambda>r3.
                        case r3 of
                          Inl e \<Rightarrow> Done (Inl e)
                        | Inr _ \<Rightarrow>
                            Done (Inr (Inl (Return \<lparr> success = False, recordingId = rid,
                                                    r_status = Local,
                                                    error = Some (if instanceof_Error err
                                                                  then message err
                                                                  else ''Unknown error'') \<rparr>))))
                    else if \<not> isRetryableError err then
                      Done (Inr (Inl (Break k' (Some (if instanceof_Error err then message err
                                                     else ''Unknown error'')))))
                    else if attempt + 1 \<ge> MAX_ATTEMPTS then
                      Done (Inr (Inl (Break k' (Some (if instanceof_Error err then message err
                                                     else ''Unknown error'')))))
                    else
                      Done (Inr (Inr (k', Some (if instanceof_Error err then message err
                                               else ''Unknown error''))))))))"

function uploadLoop_proc ::
  "env \<Rightarrow> string \<Rightarrow> Recording \<Rightarrow> int \<Rightarrow> int \<Rightarrow> string option \<Rightarrow> string option
     \<Rightarrow> (js_error + loop_exit) proc" where
  "uploadLoop_proc en rid recording startAttempt attempt k le =
     (if \<not> attempt < MAX_ATTEMPTS then Done (Inr (Break k le))
      else
        andThen (iteration_proc en rid recording startAttempt attempt k) (\<lambda>r.
          case r of
            Inl e \<Rightarrow> Done (Inl e)
          | Inr (Inl x) \<Rightarrow> Done (Inr x)
          | Inr (Inr (k', le')) \<Rightarrow>
              uploadLoop_proc en rid recording startAttempt (attempt + 1) k' le'))"
  by pat_completeness auto
termination
  by (relation "measure (\<lambda>(en, rid, recording, startAttempt, attempt, k, le).
                  nat (MAX_ATTEMPTS - attempt))") auto

definition terminalFailure_proc ::
  "env \<Rightarrow> string \<Rightarrow> Recording \<Rightarrow> string option \<Rightarrow> string option \<Rightarrow> (js_error + UploadResult) proc" where
  "terminalFailure_proc en rid recording k le =
     andThen (await (updateRecordingStatus en rid Failed
                       (noExtras\<lparr>uploadAttempts' := Some MAX_ATTEMPTS, lastError' := le\<rparr>))) (\<lambda>r1.
       case r1 of
         Inl e \<Rightarrow> Done (Inl e)
       | Inr _ \<Rightarrow>
           andThen (await (saveRecordingToDb en (dbData recording k Failed le))) (\<lambda>_.
             Done (Inr \<lparr> success = False, recordingId = rid, r_status = Failed, error = le \<rparr>)))"

definition uploadRecording_proc :: "env \<Rightarrow> string \<Rightarrow> (js_error + UploadResult) proc" where
  "uploadRecording_proc en rid =
     andThen (await (getRecordingById en rid)) (\<lambda>r1.
       case r1 of
         Inl e \<Rightarrow> Done (Inl e)
       | Inr None \<Rightarrow>
           Done (Inr \<lparr> success = False, recordingId = rid, r_status = Failed,
                       error = Some ''Recording not found'' \<rparr>)
       | Inr (Some recording) \<Rightarrow>
           (if status recording = Synced then
              Done (Inr \<lparr> success = True, recordingId = rid, r_status = Synced, error = None \<rparr>)
            else if uploadAttempts recording \<ge> MAX_ATTEMPTS then
              Done (Inr \<lparr> success = False, recordingId = rid, r_status = Failed,
                          error = Some (case lastError recording of
                                          Some e \<Rightarrow> e
                                        | None \<Rightarrow> ''Maximum upload attempts reached'') \<rparr>)
            else
              andThen (uploadLoop_proc en rid recording (uploadAttempts recording)
                         (uploadAttempts recording) (s3Key recording) None) (\<lambda>r2.
                case r2 of
                  Inl e \<Rightarrow> Done (Inl e)
                | Inr (Return r) \<Rightarrow> Done (Inr r)
                | Inr (Break k le) \<Rightarrow> terminalFailure_proc en rid recording k le)))"

fun uploadEach_proc ::
  "env \<Rightarrow> Recording list \<Rightarrow> UploadResult list \<Rightarrow> (js_error + UploadResult list) proc" where
  "uploadEach_proc en [] results = Done (Inr results)"
| "uploadEach_proc en (recording # pending) results =
     andThen (uploadRecording_proc en (id' recording)) (\<lambda>r.
       case r of
         Inl e \<Rightarrow> Done (Inl e)
       | Inr result \<Rightarrow> uploadEach_proc en pending (results @ [result]))"

definition uploadAllPending_proc :: "env \<Rightarrow> (js_error + UploadResult list) proc" where
  "uploadAllPending_proc en =
     andThen (await (getRecordingsByStatus en [Local, Uploading])) (\<lambda>r.
       case r of
         Inl e \<Rightarrow> Done (Inl e)
       | Inr pending \<Rightarrow> uploadEach_proc en pending [])"

text \<open>The handlers of sw.ts, as computations.\<close>

definition registerSync_proc :: "env \<Rightarrow> unit proc" where
  "registerSync_proc en = (if hasSync en then perform (emit SyncRegister) else Done ())"

definition handleUpload_proc :: "env \<Rightarrow> string \<Rightarrow> (js_error + unit) proc" where
  "handleUpload_proc en rid =
     sync (\<lambda>w.
       if \<not> onLine en (now w) then andThen (registerSync_proc en) (\<lambda>_. Done (Inr ()))
       else
         andThen (if isSafari en then await (checkConnectivity en) else Done True) (\<lambda>connected.
           if \<not> connected then andThen (perform scheduleRetry) (\<lambda>_. Done (Inr ()))
           else
             andThen (perform (broadcastStatus \<lparr> success = False, recordingId = rid,
                                                 r_status = Uploading, error = None \<rparr>)) (\<lambda>_.
               andThen (uploadRecording_proc en rid) (\<lambda>r.
                 case r of
                   Inl e \<Rightarrow> Done (Inl e)
                 | Inr result \<Rightarrow>
                     andThen (perform (broadcastStatus result)) (\<lambda>_.
                       andThen (if \<not> success result
                                then (if isSafari en then perform scheduleRetry
                                      else registerSync_proc en)
                                else Done ()) (\<lambda>_. Done (Inr ())))))))"

definition handleDelete_proc :: "env \<Rightarrow> string \<Rightarrow> string \<Rightarrow> (js_error + unit) proc" where
  "handleDelete_proc en rid k =
     sync (\<lambda>w.
       if \<not> onLine en (now w) then
         andThen (await (addPendingDelete en \<lparr> pd_id = rid, pd_s3Key = k \<rparr>)) (\<lambda>r.
           case r of
             Inl e \<Rightarrow> Done (Inl e)
           | Inr _ \<Rightarrow> andThen (registerSync_proc en) (\<lambda>_. Done (Inr ())))
       else
         andThen (await (deleteRecordingFromServer en k rid)) (\<lambda>r.
           case r of
             Inr deleted \<Rightarrow> Done (Inr ())
           | Inl err \<Rightarrow>
               (if isNetworkError err then
                  andThen (await (addPendingDelete en \<lparr> pd_id = rid, pd_s3Key = k \<rparr>)) (\<lambda>r.
                    case r of
                      Inl e \<Rightarrow> Done (Inl e)
                    | Inr _ \<Rightarrow>
                        andThen (if isSafari en then perform scheduleRetry
                                 else registerSync_proc en) (\<lambda>_. Done (Inr ())))
                else Done (Inr ()))))"

fun retryEach_proc :: "env \<Rightarrow> PendingDelete list \<Rightarrow> unit proc" where
  "retryEach_proc en [] = Done ()"
| "retryEach_proc en (entry # pending) =
     andThen (await (deleteRecordingFromServer en (pd_s3Key entry) (pd_id entry))) (\<lambda>r.
       case r of
         Inl err \<Rightarrow> retryEach_proc en pending
       | Inr deleted \<Rightarrow>
           (if deleted
            then andThen (await (removePendingDelete en (pd_id entry))) (\<lambda>_.
                   retryEach_proc en pending)
            else retryEach_proc en pending))"

definition handleRetryDeletes_proc :: "env \<Rightarrow> (js_error + unit) proc" where
  "handleRetryDeletes_proc en =
     andThen (await (getAllPendingDeletes en)) (\<lambda>r.
       case r of
         Inl e \<Rightarrow> Done (Inl e)
       | Inr pending \<Rightarrow> andThen (retryEach_proc en pending) (\<lambda>_. Done (Inr ())))"

fun broadcastEach_proc :: "UploadResult list \<Rightarrow> unit proc" where
  "broadcastEach_proc [] = Done ()"
| "broadcastEach_proc (result # results) =
     andThen (perform (broadcastStatus result)) (\<lambda>_. broadcastEach_proc results)"

definition handleRetryAll_proc :: "env \<Rightarrow> (js_error + unit) proc" where
  "handleRetryAll_proc en =
     andThen (handleRetryDeletes_proc en) (\<lambda>r1.
       case r1 of
         Inl e \<Rightarrow> Done (Inl e)
       | Inr _ \<Rightarrow>
           andThen (uploadAllPending_proc en) (\<lambda>r2.
             case r2 of
               Inl e \<Rightarrow> Done (Inl e)
             | Inr results \<Rightarrow>
                 andThen (broadcastEach_proc results) (\<lambda>_.
                   andThen (await (getAllPendingDeletes en)) (\<lambda>r3.
                     case r3 of
                       Inl e \<Rightarrow> Done (Inl e)
                     | Inr stillPending \<Rightarrow>
                         andThen (if (\<exists>r \<in> set results. r_status r = Local)
                                     \<or> length stillPending > 0
                                  then perform scheduleRetry else Done ()) (\<lambda>_.
                           Done (Inr ()))))))"

subsection \<open>The event loop\<close>

text \<open>
  The worker at the level of promises. A promise is a number; \<open>promises\<close> holds, for each,
  \<open>None\<close> while it is pending and its outcome once it is settled. \<open>reactions\<close> are the
  handlers registered by \<open>then\<close> on promises still pending, each with the promise that \<open>then\<close>
  returned; \<open>running\<close> are the calls of \<open>async\<close> functions that have started and not
  finished, each with the promise its completion settles; \<open>uploadQueue\<close> is the variable of
  sw.ts. \<open>history\<close> is the lane's own log: which promise a \<open>then\<close> returned (\<open>Submitted\<close>),
  and when the call that settles it started, took a step and finished.

  \<open>p.then(onFulfilled, onRejected)\<close> returns a new promise. When \<open>p\<close> is settled the handler
  for its outcome is called; when \<open>p\<close> is pending the two handlers wait in \<open>reactions\<close> until
  \<open>settle\<close> calls the one for the outcome. The promise that \<open>then\<close> returned follows the
  promise that the handler returns, so it is settled when the handler's call finishes.
  (A handler is called in a microtask of its own; nothing else runs before it, so it is
  called at once here.)

  \<open>resume d\<close> is the event loop going on with the call that settles \<open>d\<close>: the call takes its
  next step or, when it is done, the promise is settled. Nothing happens when no such call
  is running. An \<open>action\<close> of the event loop is a message received from a page or the
  resumption of a call; a list of actions is one possible course of events.
\<close>

type_synonym job = "(js_error + unit) proc"

datatype lane_event =
  Submitted nat
| Started nat
| Stepped nat
| Finished nat "js_error + unit"

record loop =
  mem :: world
  promises :: "(js_error + unit) option list"
  reactions :: "(nat \<times> (unit \<Rightarrow> job) \<times> (js_error \<Rightarrow> job) \<times> nat) list"
  running :: "(nat \<times> job) list"
  uploadQueue :: nat
  history :: "lane_event list"

definition boot :: "world \<Rightarrow> loop" where
  "boot w =
     \<lparr> mem = w, promises = [Some (Inr ())], reactions = [], running = [], uploadQueue = 0,
       history = [] \<rparr>"

definition start_job :: "nat \<Rightarrow> job \<Rightarrow> loop \<Rightarrow> loop" where
  "start_job d t s = s\<lparr> running := running s @ [(d, t)], history := history s @ [Started d] \<rparr>"

definition then_promise ::
  "nat \<Rightarrow> (unit \<Rightarrow> job) \<Rightarrow> (js_error \<Rightarrow> job) \<Rightarrow> loop \<Rightarrow> nat \<times> loop" where
  "then_promise p onFulfilled onRejected s =
     (let d = length (promises s);
          s1 = s\<lparr> promises := promises s @ [None], history := history s @ [Submitted d] \<rparr>
      in (d, case (if p < length (promises s) then promises s ! p else None) of
               None \<Rightarrow> s1\<lparr> reactions := reactions s1 @ [(p, onFulfilled, onRejected, d)] \<rparr>
             | Some (Inr v) \<Rightarrow> start_job d (onFulfilled v) s1
             | Some (Inl e) \<Rightarrow> start_job d (onRejected e) s1))"

definition enqueue' :: "job \<Rightarrow> loop \<Rightarrow> loop" where
  "enqueue' t s =
     (case then_promise (uploadQueue s) (\<lambda>_. t) (\<lambda>_. t) s of
        (d, s') \<Rightarrow> s'\<lparr> uploadQueue := d \<rparr>)"

fun onMessage' :: "env \<Rightarrow> PageToSwMessage \<Rightarrow> loop \<Rightarrow> loop" where
  "onMessage' en (UPLOAD_RECORDING rid) s = enqueue' (handleUpload_proc en rid) s"
| "onMessage' en (DELETE_RECORDING rid k) s = enqueue' (handleDelete_proc en rid k) s"
| "onMessage' en RETRY_ALL_UPLOADS s = enqueue' (handleRetryAll_proc en) s"

definition settle :: "nat \<Rightarrow> js_error + unit \<Rightarrow> loop \<Rightarrow> loop" where
  "settle d r s =
     fold (\<lambda>(p, onFulfilled, onRejected, d').
             start_job d' (case r of Inr v \<Rightarrow> onFulfilled v | Inl e \<Rightarrow> onRejected e))
       (filter (\<lambda>(p, onFulfilled, onRejected, d'). p = d) (reactions s))
       (s\<lparr> promises := (promises s)[d := Some r],
           running := filter (\<lambda>(d', t). d' \<noteq> d) (running s),
           reactions := filter (\<lambda>(p, onFulfilled, onRejected, d'). p \<noteq> d) (reactions s),
           history := history s @ [Finished d r] \<rparr>)"

definition resume :: "nat \<Rightarrow> loop \<Rightarrow> loop" where
  "resume d s =
     (case map_of (running s) d of
        None \<Rightarrow> s
      | Some (Done r) \<Rightarrow> settle d r s
      | Some (Await g k) \<Rightarrow>
          s\<lparr> mem := g (mem s),
             running := map (\<lambda>(d', t). if d' = d then (d', k (mem s)) else (d', t)) (running s),
             history := history s @ [Stepped d] \<rparr>)"

datatype action =
  Message PageToSwMessage
| Resume nat

fun exec_action :: "env \<Rightarrow> action \<Rightarrow> loop \<Rightarrow> loop" where
  "exec_action en (Message m) s = onMessage' en m s"
| "exec_action en (Resume d) s = resume d s"

section \<open>Reading the event log\<close>

text \<open>The events logged between two worlds.\<close>

definition events_since :: "world \<Rightarrow> world \<Rightarrow> event list" where
  "events_since w w' = drop (length (trace w)) (trace w')"

text \<open>A store write that would leave a record with status \<open>synced\<close> in the store.\<close>

fun persists_synced :: "event \<Rightarrow> bool" where
  "persists_synced (Db (UpdateRecordingStatusOp i st x) f) = (st = Synced)"
| "persists_synced (Db (SaveRecordingOp r) f) = (status r = Synced)"
| "persists_synced _ = False"

text \<open>
  A monitor for the purge: reading the log from left to right, it remembers whether the
  object PUT has been answered OK (or the key was recorded before, its first argument)
  and whether a metadata commit with status \<open>synced\<close> has been answered OK. It accepts
  a \<open>deleteRecording\<close> only when both hold, and a store write that records the key only
  when the PUT has been answered OK.
\<close>

fun purge_guarded :: "bool \<Rightarrow> bool \<Rightarrow> event list \<Rightarrow> bool" where
  "purge_guarded p c [] = True"
| "purge_guarded p c (Fetch (PutObject u b t) (Response st body) # es) =
     purge_guarded (p \<or> ok st) c es"
| "purge_guarded p c (Fetch (SaveRecording d) (Response st body) # es) =
     purge_guarded p (c \<or> (ok st \<and> d_status d = Synced)) es"
| "purge_guarded p c (Db (DeleteRecordingOp i) f # es) = (p \<and> c \<and> purge_guarded p c es)"
| "purge_guarded p c (Db (UpdateRecordingStatusOp i st x) f # es) =
     ((s3Key' x \<noteq> None \<longrightarrow> p) \<and> purge_guarded p c es)"
| "purge_guarded p c (e # es) = purge_guarded p c es"

text \<open>The requests of the object transfer, and the metadata commit.\<close>

fun transfer_call :: "event \<Rightarrow> bool" where
  "transfer_call (Fetch (GetUploadUrl f) r) = True"
| "transfer_call (Fetch (PutObject u b t) r) = True"
| "transfer_call _ = False"

fun network_call :: "event \<Rightarrow> bool" where
  "network_call (Fetch req r) = True"
| "network_call _ = False"

fun metadata_commit :: "event \<Rightarrow> bool" where
  "metadata_commit (Fetch (SaveRecording d) r) = True"
| "metadata_commit _ = False"

text \<open>The value of \<open>uploadAttempts\<close> a store write carries, if it carries one.\<close>

fun attempts_written :: "event \<Rightarrow> int option" where
  "attempts_written (Db (UpdateRecordingStatusOp i st x) f) = uploadAttempts' x"
| "attempts_written (Db (SaveRecordingOp r) f) = Some (uploadAttempts r)"
| "attempts_written _ = None"

definition within_budget :: "event \<Rightarrow> bool" where
  "within_budget e \<longleftrightarrow> (\<forall>n. attempts_written e = Some n \<longrightarrow> n \<le> MAX_ATTEMPTS)"



text \<open>
  The store changes only through what is logged: \<open>apply_event\<close> is the change a logged
  effect made (none unless it is a store write whose transaction completed, or the arming
  of the timer), \<open>step\<close> makes the change and logs the event. \<open>steps P w w'\<close> says that
  \<open>w'\<close> comes from \<open>w\<close> by a sequence of logged effects that all satisfy \<open>P\<close>.
\<close>

fun apply_event :: "event \<Rightarrow> world \<Rightarrow> world" where
  "apply_event (Db (SaveRecordingOp r) None) w = w\<lparr>recordings := idb_put id' r (recordings w)\<rparr>"
| "apply_event (Db (DeleteRecordingOp i) None) w =
     w\<lparr>recordings := idb_delete id' i (recordings w)\<rparr>"
| "apply_event (Db (UpdateRecordingStatusOp i st x) None) w =
     (case idb_get id' i (recordings w) of
        None \<Rightarrow> w
      | Some r \<Rightarrow> w\<lparr>recordings := idb_put id' (updated r st x) (recordings w)\<rparr>)"
| "apply_event (Db (AddPendingDeleteOp entry) None) w =
     w\<lparr>pendingDeletes := idb_put pd_id entry (pendingDeletes w)\<rparr>"
| "apply_event (Db (RemovePendingDeleteOp i) None) w =
     w\<lparr>pendingDeletes := idb_delete pd_id i (pendingDeletes w)\<rparr>"
| "apply_event (SetTimeout n) w = w\<lparr>retryTimer := True\<rparr>"
| "apply_event e w = w"

definition step :: "event \<Rightarrow> world \<Rightarrow> world" where
  "step e w = emit e (apply_event e w)"

definition steps :: "(event \<Rightarrow> bool) \<Rightarrow> world \<Rightarrow> world \<Rightarrow> bool" where
  "steps P w w' \<longleftrightarrow> (\<exists>evs. (\<forall>e\<in>set evs. P e) \<and> w' = fold step evs w)"

text \<open>
  The effects, other than sleeping, that the loop of \<open>uploadRecording\<close> and what follows it
  can log, for the recording \<open>recording\<close> read at the start, the attempt count \<open>start\<close> it
  had and the key \<open>k0\<close> it had.
\<close>

inductive upload_event :: "string \<Rightarrow> Recording \<Rightarrow> int \<Rightarrow> string option \<Rightarrow> event \<Rightarrow> bool"
  for rid :: string and recording :: Recording and start :: int and k0 :: "string option" where
  attempt:
    "start < n \<Longrightarrow> n \<le> MAX_ATTEMPTS \<Longrightarrow>
     upload_event rid recording start k0
       (Db (UpdateRecordingStatusOp rid Uploading (noExtras\<lparr>uploadAttempts' := Some n\<rparr>)) f)"
| get_url:
    "falsy k0 \<Longrightarrow> upload_event rid recording start k0 (Fetch (GetUploadUrl (filename recording)) r)"
| put_object:
    "falsy k0 \<Longrightarrow>
     upload_event rid recording start k0
       (Fetch (PutObject u (blob recording) (or_else (type' (blob recording)) ''audio/webm'')) r)"
| checkpoint:
    "falsy k0 \<Longrightarrow>
     upload_event rid recording start k0
       (Db (UpdateRecordingStatusOp rid Uploading (noExtras\<lparr>s3Key' := Some k\<rparr>)) f)"
| commit:
    "upload_event rid recording start k0 (Fetch (SaveRecording (dbData recording k' Synced None)) r)"
| purge: "upload_event rid recording start k0 (Db (DeleteRecordingOp rid) f)"
| revert:
    "start < MAX_ATTEMPTS \<Longrightarrow>
     upload_event rid recording start k0
       (Db (UpdateRecordingStatusOp rid Local (noExtras\<lparr>uploadAttempts' := Some start\<rparr>)) f)"
| give_up:
    "upload_event rid recording start k0
       (Db (UpdateRecordingStatusOp rid Failed
              (noExtras\<lparr>uploadAttempts' := Some MAX_ATTEMPTS, lastError' := le\<rparr>)) f)"
| report:
    "upload_event rid recording start k0 (Fetch (SaveRecording (dbData recording k' Failed le)) r)"

fun is_sleep :: "event \<Rightarrow> bool" where
  "is_sleep (Sleep d) = True"
| "is_sleep _ = False"

text \<open>Every effect \<open>uploadRecording rid\<close> can log from the world \<open>w\<close>.\<close>

definition uploading :: "string \<Rightarrow> world \<Rightarrow> event \<Rightarrow> bool" where
  "uploading rid w e \<longleftrightarrow>
     (\<exists>f. e = Db (GetRecordingByIdOp rid) f) \<or> is_sleep e
     \<or> (\<exists>r. idb_get id' rid (recordings w) = Some r
             \<and> upload_event rid (hydrateRecording r) (uploadAttempts r) (s3Key r) e)"

text \<open>
  What the monitor of the purge has seen: a PUT answered OK, a commit of status \<open>synced\<close>
  answered OK, a \<open>deleteRecording\<close>.
\<close>

fun put_ok :: "event \<Rightarrow> bool" where
  "put_ok (Fetch (PutObject u b t) (Response st body)) = ok st"
| "put_ok _ = False"

fun commit_ok :: "event \<Rightarrow> bool" where
  "commit_ok (Fetch (SaveRecording d) (Response st body)) = (ok st \<and> d_status d = Synced)"
| "commit_ok _ = False"

fun is_purge :: "event \<Rightarrow> bool" where
  "is_purge (Db (DeleteRecordingOp i) f) = True"
| "is_purge _ = False"

fun records_key :: "event \<Rightarrow> bool" where
  "records_key (Db (UpdateRecordingStatusOp i st x) f) = (s3Key' x \<noteq> None)"
| "records_key _ = False"

text \<open>
  \<open>guarded p w0 w\<close>: \<open>w\<close> comes from \<open>w0\<close> by logged effects that the monitor of the purge
  accepts, started with \<open>p\<close> for the PUT and no commit seen; \<open>put_seen\<close> and \<open>commit_seen\<close>
  say what the monitor has seen among them.
\<close>

definition guarded :: "bool \<Rightarrow> world \<Rightarrow> world \<Rightarrow> bool" where
  "guarded p w0 w \<longleftrightarrow> (\<exists>evs. w = fold step evs w0 \<and> purge_guarded p False evs)"

definition put_seen :: "bool \<Rightarrow> world \<Rightarrow> world \<Rightarrow> bool" where
  "put_seen p w0 w \<longleftrightarrow> p \<or> list_ex put_ok (events_since w0 w)"

definition commit_seen :: "world \<Rightarrow> world \<Rightarrow> bool" where
  "commit_seen w0 w \<longleftrightarrow> list_ex commit_ok (events_since w0 w)"

text \<open>
  \<open>committed_then_purged rid w w'\<close>: the last two effects logged from \<open>w\<close> to \<open>w'\<close> are a
  metadata commit of status \<open>synced\<close> answered OK and the completed \<open>deleteRecording rid\<close>.
\<close>

definition committed_then_purged :: "string \<Rightarrow> world \<Rightarrow> world \<Rightarrow> bool" where
  "committed_then_purged rid w w' \<longleftrightarrow>
     (\<exists>xs d st body.
        w' = fold step (xs @ [Fetch (SaveRecording d) (Response st body),
                              Db (DeleteRecordingOp rid) None]) w
        \<and> ok st \<and> d_status d = Synced)"

text \<open>
  The log of the loop of \<open>handleRetryDeletes\<close> over the entries \<open>pending\<close>, started as the
  \<open>t\<close>-th effect: for each entry the delete request with the reply it got, followed by
  the \<open>removePendingDelete\<close> when the reply was OK.
\<close>

fun replied_ok :: "fetch_reply \<Rightarrow> bool" where
  "replied_ok (Response st body) = ok st"
| "replied_ok (Rejected err) = False"

fun sweep_events :: "env \<Rightarrow> nat \<Rightarrow> PendingDelete list \<Rightarrow> event list" where
  "sweep_events en t [] = []"
| "sweep_events en t (entry # pending) =
     (if replied_ok (net en t) then
        Fetch (DeleteRecordingReq (pd_s3Key entry) (pd_id entry)) (net en t)
          # Db (RemovePendingDeleteOp (pd_id entry)) (dbFault en (Suc t))
          # sweep_events en (Suc (Suc t)) pending
      else
        Fetch (DeleteRecordingReq (pd_s3Key entry) (pd_id entry)) (net en t)
          # sweep_events en (Suc t) pending)"

text \<open>
  What the specification says of the lane: the tasks run one at a time, in the order they
  were submitted, each on the world the one before it left, whatever that one's outcome.
\<close>

definition lane_spec :: "task list \<Rightarrow> world \<Rightarrow> world" where
  "lane_spec ts w = foldl (\<lambda>w' t. snd (t w')) w ts"

text \<open>
  A monitor for the lane, reading its history from left to right. It remembers the tasks
  submitted, in order, the tasks finished, in order, and the task that has started and not
  finished. It accepts the start of a task only when no task is running and the tasks
  finished are exactly those submitted before it, and a step or the end of a task only when
  that task is the one running. \<open>lane_ok\<close>: the monitor accepts the whole history and, when
  no task is running at its end, every task submitted has finished.
\<close>

text \<open>The messages of a course of events, in order of arrival.\<close>

fun messages :: "action list \<Rightarrow> PageToSwMessage list" where
  "messages [] = []"
| "messages (Message m # acts) = m # messages acts"
| "messages (Resume d # acts) = messages acts"

fun lane_step ::
  "lane_event \<Rightarrow> (nat list \<times> nat list \<times> nat option) option
     \<Rightarrow> (nat list \<times> nat list \<times> nat option) option" where
  "lane_step e None = None"
| "lane_step (Submitted d) (Some (submitted, finished, current)) =
     Some (submitted @ [d], finished, current)"
| "lane_step (Started d) (Some (submitted, finished, current)) =
     (if current = None \<and> d \<in> set submitted \<and> finished = takeWhile (\<lambda>x. x \<noteq> d) submitted
      then Some (submitted, finished, Some d) else None)"
| "lane_step (Stepped d) (Some (submitted, finished, current)) =
     (if current = Some d then Some (submitted, finished, current) else None)"
| "lane_step (Finished d r) (Some (submitted, finished, current)) =
     (if current = Some d then Some (submitted, finished @ [d], None) else None)"

definition lane_ok :: "lane_event list \<Rightarrow> bool" where
  "lane_ok h =
     (case fold lane_step h (Some ([], [], None)) of
        None \<Rightarrow> False
      | Some (submitted, finished, current) \<Rightarrow> current = None \<longrightarrow> finished = submitted)"

text \<open>The task a message stands for, step by step and as a function on the world.\<close>

definition job_of :: "env \<Rightarrow> PageToSwMessage \<Rightarrow> job" where
  "job_of en m =
     (case m of
        UPLOAD_RECORDING rid \<Rightarrow> handleUpload_proc en rid
      | DELETE_RECORDING rid k \<Rightarrow> handleDelete_proc en rid k
      | RETRY_ALL_UPLOADS \<Rightarrow> handleRetryAll_proc en)"

definition task_of :: "env \<Rightarrow> PageToSwMessage \<Rightarrow> task" where
  "task_of en m =
     (case m of
        UPLOAD_RECORDING rid \<Rightarrow> handleUpload en rid
      | DELETE_RECORDING rid k \<Rightarrow> handleDelete en rid k
      | RETRY_ALL_UPLOADS \<Rightarrow> handleRetryAll en)"


text \<open>
  The invariant of the event loop after the messages \<open>ms\<close>, from the world \<open>w0\<close>. The
  promise \<open>uploadQueue\<close> is the one returned for the last message. Either nothing is
  running, no handler waits, and the world is the one the tasks of all the messages leave
  when run one after the other; or one task is running, the task of the \<open>c\<close>-th message,
  which will leave the world that the tasks of the first \<open>c\<close> messages leave, and the tasks
  of the later messages wait in a chain, each on the promise of the one before it.
\<close>

definition lane_inv :: "env \<Rightarrow> world \<Rightarrow> PageToSwMessage list \<Rightarrow> loop \<Rightarrow> bool" where
  "lane_inv en w0 ms s \<longleftrightarrow>
     length (promises s) = Suc (length ms) \<and> uploadQueue s = length ms
     \<and> ((running s = [] \<and> reactions s = []
          \<and> (\<forall>d\<le>length ms. promises s ! d \<noteq> None)
          \<and> mem s = lane_spec (map (task_of en) ms) w0
          \<and> fold lane_step (history s) (Some ([], [], None)) =
              Some ([1..<Suc (length ms)], [1..<Suc (length ms)], None))
        \<or> (\<exists>c p. 1 \<le> c \<and> c \<le> length ms \<and> running s = [(c, p)]
              \<and> snd (run p (mem s)) = lane_spec (map (task_of en) (take c ms)) w0
              \<and> reactions s =
                  map (\<lambda>j. (j, \<lambda>_. job_of en (ms ! j), \<lambda>_. job_of en (ms ! j), Suc j))
                    [c..<length ms]
              \<and> (\<forall>d<c. promises s ! d \<noteq> None)
              \<and> (\<forall>d. c \<le> d \<and> d \<le> length ms \<longrightarrow> promises s ! d = None)
              \<and> fold lane_step (history s) (Some ([], [], None)) =
                  Some ([1..<Suc (length ms)], [1..<c], Some c)))"

fun submitted_ids :: "lane_event list \<Rightarrow> nat list" where
  "submitted_ids [] = []"
| "submitted_ids (Submitted d # h) = d # submitted_ids h"
| "submitted_ids (e # h) = submitted_ids h"

section \<open>Scenarios\<close>

text \<open>Concrete recordings, stores and environments on which the theorems are run.\<close>

definition recLocal :: Recording where
  "recLocal =
     \<lparr> id' = ''r1'', filename = ''recording-r1.webm'',
       payload = \<lparr> arrayBuffer = [26, 69, 223, 163], type' = ''audio/webm'' \<rparr>,
       fileSize = 4, duration = 2, recordedAt = ''2025-01-01T00:00:00.000Z'',
       status = Local, s3Key = None, uploadAttempts = 0, lastError = None \<rparr>"

definition recNoType :: Recording where
  "recNoType = recLocal\<lparr> payload := \<lparr> arrayBuffer = [26, 69, 223, 163], type' = [] \<rparr> \<rparr>"

definition recKeyed :: Recording where
  "recKeyed = recLocal\<lparr> s3Key := Some ''recordings/recording-r1.webm'', uploadAttempts := 1 \<rparr>"

definition recSpent :: Recording where
  "recSpent = recLocal\<lparr> status := Failed, uploadAttempts := 3, lastError := Some ''S3 upload failed: 403'' \<rparr>"

definition storeOf :: "Recording list \<Rightarrow> PendingDelete list \<Rightarrow> world" where
  "storeOf rs ds =
     \<lparr> recordings = map storable rs, pendingDeletes = ds, retryTimer = False, trace = [] \<rparr>"

definition uploadTarget :: UploadUrlResponse where
  "uploadTarget = \<lparr> url = ''https://bucket.example/put'', key = ''recordings/recording-r1.webm'' \<rparr>"

text \<open>Every request is answered 200 and no store operation fails.\<close>

definition envOk :: env where
  "envOk =
     \<lparr> net = (\<lambda>n. Response 200 (Inr uploadTarget)), dbFault = (\<lambda>n. None),
       random = (\<lambda>n. 0), onLine = (\<lambda>n. True), isSafari = False, hasSync = True \<rparr>"

text \<open>The third effect, the first request, is answered 503; every later request fails to
  connect.\<close>

definition env503 :: env where
  "env503 =
     envOk\<lparr> net := (\<lambda>n. if n = 2 then Response 503 (Inl NotAnError)
                          else Rejected (TypeError ''Failed to fetch'')) \<rparr>"

text \<open>No request connects.\<close>

definition envOffline :: env where
  "envOffline = envOk\<lparr> net := (\<lambda>n. Rejected (TypeError ''Failed to fetch'')) \<rparr>"

text \<open>Every request is answered 404.\<close>

definition env404 :: env where
  "env404 = envOk\<lparr> net := (\<lambda>n. Response 404 (Inl NotAnError)) \<rparr>"

text \<open>Two pending deletes, and an environment that answers the second effect (the delete
  request for the first entry) 200 and every other request 404.\<close>

definition pendingA :: PendingDelete where
  "pendingA = \<lparr> pd_id = ''a'', pd_s3Key = ''recordings/a.webm'' \<rparr>"

definition pendingB :: PendingDelete where
  "pendingB = \<lparr> pd_id = ''b'', pd_s3Key = ''recordings/b.webm'' \<rparr>"

definition envFirstOnly :: env where
  "envFirstOnly =
     envOk\<lparr> net := (\<lambda>n. if n = 1 then Response 200 (Inl NotAnError)
                          else Response 404 (Inl NotAnError)) \<rparr>"


text \<open>No request connects, and the store rejects the fourth effect.\<close>

definition envLost :: env where
  "envLost =
     envOffline\<lparr> dbFault := (\<lambda>n. if n = 3
                                  then Some (DOMException ''AbortError'' ''The transaction was aborted'')
                                  else None) \<rparr>"

text \<open>
  The upload of \<open>recKeyed\<close> with no connection: the world after the record has been read,
  after the write that starts the attempt, and after the \<open>try\<close> block has failed.
\<close>

definition afterRead :: world where
  "afterRead = emit (Db (GetRecordingByIdOp ''r1'') None) (storeOf [recKeyed] [])"

definition attemptStarted :: world where
  "attemptStarted =
     snd (updateRecordingStatus envOffline ''r1'' Uploading
            (noExtras\<lparr>uploadAttempts' := Some 2\<rparr>) afterRead)"

definition attemptFailed :: world where
  "attemptFailed =
     snd (snd (tryBlock envOffline ''r1'' recKeyed (Some ''recordings/recording-r1.webm'')
                 attemptStarted))"

text \<open>The store rejects the first effect.\<close>

definition envNoRead :: env where
  "envNoRead =
     envOk\<lparr> dbFault := (\<lambda>n. if n = 0
                               then Some (DOMException ''UnknownError''
                                            ''Internal error opening backing store'')
                               else None) \<rparr>"

text \<open>As \<open>envFirstOnly\<close>, and the store rejects the third effect (the removal of the first
  entry).\<close>

definition envKept :: env where
  "envKept =
     envFirstOnly\<lparr> dbFault := (\<lambda>n. if n = 2
                                     then Some (DOMException ''AbortError''
                                                  ''The transaction was aborted'')
                                     else None) \<rparr>"


text \<open>The store rejects the second effect.\<close>

definition envReadFails :: env where
  "envReadFails =
     envOk\<lparr> dbFault := (\<lambda>n. if n = 1
                               then Some (DOMException ''UnknownError''
                                            ''Internal error opening backing store'')
                               else None) \<rparr>"

text \<open>
  Two courses of events. In the first an upload is requested, and while it is in flight
  (after three of its steps) a delete for the same recording and a retry of everything are
  requested; the page's attempt to resume the delete has no effect. In the second the
  upload is rejected.
\<close>

definition scheduleA :: "action list" where
  "scheduleA =
     [Message (UPLOAD_RECORDING ''r1''), Resume 1, Resume 1, Resume 1,
      Message (DELETE_RECORDING ''r1'' ''recordings/recording-r1.webm''),
      Message RETRY_ALL_UPLOADS, Resume 2,
      Resume 1, Resume 1, Resume 1, Resume 1, Resume 1, Resume 1, Resume 1,
      Resume 2, Resume 2, Resume 3, Resume 3, Resume 3, Resume 3]"

definition scheduleB :: "action list" where
  "scheduleB =
     [Message (UPLOAD_RECORDING ''r1''), Resume 1,
      Message (DELETE_RECORDING ''r1'' ''recordings/recording-r1.webm''),
      Resume 1, Resume 1, Resume 2, Resume 2]"
declare uploadLoop.simps [simp del]

section \<open>Facts about the object store\<close>

lemma idb_get_put_same: "idb_get k (k x) (idb_put k x xs) = Some x"
  by (induction xs) (auto simp: idb_get_def)

lemma idb_put_member: "x \<in> set (idb_put k x xs)"
  by (induction xs) auto

lemma idb_get_SomeD: "idb_get k i xs = Some r \<Longrightarrow> k r = i \<and> r \<in> set xs"
  by (induction xs) (auto simp: idb_get_def split: if_splits)

lemma set_idb_put: "set (idb_put k x xs) \<subseteq> insert x (set xs)"
  by (induction xs) auto

lemma hydrate_storable:
  "hydrateRecording (storable r) =
     r\<lparr> payload := (blob r)\<lparr> type' := or_else (type' (blob r)) ''audio/webm'' \<rparr> \<rparr>"
  by (simp add: hydrateRecording_def storable_def rest_with_def)

section \<open>The log determines the world\<close>

lemma emit_simps [simp]:
  "trace (emit e w) = trace w @ [e]"
  "recordings (emit e w) = recordings w"
  "pendingDeletes (emit e w) = pendingDeletes w"
  "retryTimer (emit e w) = retryTimer w"
  "now (emit e w) = Suc (now w)"
  by (simp_all add: emit_def now_def)

lemma apply_event_trace [simp]: "trace (apply_event e w) = trace w"
  by (cases "(e, w)" rule: apply_event.cases) (simp_all split: option.splits)

lemma step_trace [simp]: "trace (step e w) = trace w @ [e]"
  by (simp add: step_def)

lemma now_step [simp]: "now (step e w) = Suc (now w)"
  by (simp add: now_def)

lemma fold_step_trace [simp]: "trace (fold step evs w) = trace w @ evs"
  by (induction evs arbitrary: w) simp_all

lemma steps_refl: "steps P w w"
  unfolding steps_def by (rule exI [of _ "[]"]) simp

lemma steps_step: "P e \<Longrightarrow> steps P w (step e w)"
  unfolding steps_def by (rule exI [of _ "[e]"]) simp

lemma steps_trans: "steps P w w' \<Longrightarrow> steps P w' w'' \<Longrightarrow> steps P w w''"
  unfolding steps_def
proof -
  assume "\<exists>evs. (\<forall>e\<in>set evs. P e) \<and> w' = fold step evs w"
    and "\<exists>evs. (\<forall>e\<in>set evs. P e) \<and> w'' = fold step evs w'"
  then obtain xs ys where "\<forall>e\<in>set xs. P e" "w' = fold step xs w"
    "\<forall>e\<in>set ys. P e" "w'' = fold step ys w'" by blast
  then have "(\<forall>e\<in>set (xs @ ys). P e) \<and> w'' = fold step (xs @ ys) w" by auto
  then show "\<exists>evs. (\<forall>e\<in>set evs. P e) \<and> w'' = fold step evs w" by blast
qed

lemma steps_then: "steps P w w' \<Longrightarrow> P e \<Longrightarrow> steps P w (step e w')"
  using steps_trans steps_step by blast

lemma steps_mono: "steps P w w' \<Longrightarrow> (\<And>e. P e \<Longrightarrow> Q e) \<Longrightarrow> steps Q w w'"
  unfolding steps_def by blast

lemma fetch_step: "snd (fetch en req w) = step (Fetch req (net en (now w))) w"
  by (simp add: fetch_def step_def)

lemma getPresignedUrl_step:
  "getPresignedUrl en f w = (r, w') \<Longrightarrow> w' = step (Fetch (GetUploadUrl f) (net en (now w))) w"
  by (auto simp: getPresignedUrl_def fetch_def step_def split: fetch_reply.splits if_splits)

lemma putToS3_step:
  "putToS3 en u b t w = (r, w') \<Longrightarrow> w' = step (Fetch (PutObject u b t) (net en (now w))) w"
  by (auto simp: putToS3_def fetch_def step_def split: fetch_reply.splits if_splits)

lemma saveRecordingToDb_step:
  "saveRecordingToDb en d w = (r, w') \<Longrightarrow> w' = step (Fetch (SaveRecording d) (net en (now w))) w"
  by (auto simp: saveRecordingToDb_def fetch_def step_def split: fetch_reply.splits if_splits)

lemma updateRecordingStatus_step:
  "updateRecordingStatus en i st x w = (r, w') \<Longrightarrow>
     w' = step (Db (UpdateRecordingStatusOp i st x) (dbFault en (now w))) w"
  by (auto simp: updateRecordingStatus_def step_def emit_def split: option.splits)

lemma deleteRecording_step:
  "deleteRecording en i w = (r, w') \<Longrightarrow> w' = step (Db (DeleteRecordingOp i) (dbFault en (now w))) w"
  by (auto simp: deleteRecording_def step_def emit_def split: option.splits)

lemma getRecordingById_step:
  "getRecordingById en i w = (r, w') \<Longrightarrow> w' = step (Db (GetRecordingByIdOp i) (dbFault en (now w))) w"
  by (auto simp: getRecordingById_def step_def emit_def split: option.splits)

lemma sleep_step: "sleep d w = step (Sleep d) w"
  by (simp add: sleep_def step_def)

lemmas upload_steps =
  getPresignedUrl_step putToS3_step saveRecordingToDb_step updateRecordingStatus_step
  deleteRecording_step

lemma events_since_fold [simp]: "events_since w (fold step evs w) = evs"
  by (simp add: events_since_def)

lemma steps_events:
  "steps P w w' \<Longrightarrow> trace w' = trace w @ events_since w w' \<and> (\<forall>e\<in>set (events_since w w'). P e)"
  unfolding steps_def by auto

lemma steps_invariant:
  assumes "steps P w w'" and "I w" and "\<And>e v. P e \<Longrightarrow> I v \<Longrightarrow> I (step e v)"
  shows "I w'"
proof -
  from assms(1) obtain evs where evs: "\<forall>e\<in>set evs. P e" and w': "w' = fold step evs w"
    unfolding steps_def by blast
  from evs assms(2) have "I (fold step evs w)"
    by (induction evs arbitrary: w) (auto intro: assms(3))
  with w' show ?thesis by simp
qed

section \<open>What an upload can log\<close>

lemma transferObject_key:
  "transferObject en rid recording k w = (r, k', w') \<Longrightarrow> \<not> falsy k \<Longrightarrow> k' = k \<and> w' = w \<and> r = Inr ()"
  by (simp add: transferObject_def)

lemma transferObject_steps:
  assumes "transferObject en rid recording k w = (r, k', w')" and "falsy k \<longrightarrow> falsy k0"
  shows "steps (upload_event rid recording start k0) w w'"
proof (cases "falsy k")
  case False
  with assms show ?thesis by (simp add: transferObject_def steps_refl)
next
  case True
  with assms(2) have k0: "falsy k0" by simp
  note ev = upload_event.intros(2-4) [OF k0, of rid recording start]
  from assms(1) True show ?thesis
    by (auto simp: transferObject_def split: prod.splits sum.splits
        dest!: upload_steps intro!: steps_then steps_step ev intro: steps_refl)
qed


lemma tryBlock_key:
  "tryBlock en rid recording k w = (r, k', w') \<Longrightarrow> \<not> falsy k \<Longrightarrow> k' = k"
  by (auto simp: tryBlock_def split: prod.splits sum.splits dest: transferObject_key)

lemma tryBlock_falsy:
  "tryBlock en rid recording k w = (r, k', w') \<Longrightarrow> falsy k0 \<or> \<not> falsy k \<Longrightarrow>
     falsy k0 \<or> \<not> falsy k'"
  using tryBlock_key by blast

lemma tryBlock_steps:
  assumes "tryBlock en rid recording k w = (r, k', w')" and "falsy k \<longrightarrow> falsy k0"
  shows "steps (upload_event rid recording start k0) w w'"
proof -
  obtain r1 k1 w1 where t: "transferObject en rid recording k w = (r1, k1, w1)"
    by (cases "transferObject en rid recording k w")
  from transferObject_steps [OF t assms(2)]
  have s1: "steps (upload_event rid recording start k0) w w1" .
  from assms(1) t s1 show ?thesis
    by (auto simp: tryBlock_def split: prod.splits sum.splits
        dest!: upload_steps intro!: steps_then upload_event.commit upload_event.purge)
qed

lemma iteration_steps:
  assumes "iteration en rid recording start a k w = (r, w')" and "falsy k \<longrightarrow> falsy k0"
    and "start \<le> a" and "a < MAX_ATTEMPTS"
  shows "steps (\<lambda>e. is_sleep e \<or> upload_event rid recording start k0 e) w w'"
proof -
  let ?P = "\<lambda>e. is_sleep e \<or> upload_event rid recording start k0 e"
  let ?w0 = "if a > start then sleep (backoffDelay (a - 1) (random en (now w))) w else w"
  have s0: "steps ?P w ?w0"
    by (simp add: sleep_step steps_refl steps_step)
  obtain r1 w1 where u: "updateRecordingStatus en rid Uploading
      (noExtras\<lparr>uploadAttempts' := Some (a + 1)\<rparr>) ?w0 = (r1, w1)"
    by (cases "updateRecordingStatus en rid Uploading
      (noExtras\<lparr>uploadAttempts' := Some (a + 1)\<rparr>) ?w0")
  have at: "?P (Db (UpdateRecordingStatusOp rid Uploading (noExtras\<lparr>uploadAttempts' := Some (a + 1)\<rparr>)) f)" for f
    using assms(3,4) by (simp add: upload_event.attempt)
  have s1: "steps ?P w w1"
    using updateRecordingStatus_step [OF u] s0 at by (simp add: steps_then)
  obtain r2 k2 w2 where t: "tryBlock en rid recording k w1 = (r2, k2, w2)"
    by (cases "tryBlock en rid recording k w1")
  have "steps ?P w1 w2"
    using tryBlock_steps [OF t assms(2), of start] by (rule steps_mono) simp
  with s1 have s2: "steps ?P w w2"
    by (rule steps_trans)
  have rv: "?P (Db (UpdateRecordingStatusOp rid Local (noExtras\<lparr>uploadAttempts' := Some start\<rparr>)) f)" for f
    using assms(3,4) by (simp add: upload_event.revert)
  from assms(1) u t s1 s2 rv show ?thesis
    by (auto simp: iteration_def split: prod.splits sum.splits if_splits
        dest!: updateRecordingStatus_step intro!: steps_then)
qed


lemma iteration_key:
  assumes "iteration en rid recording start a k w = (Inr y, w')" and "falsy k \<longrightarrow> falsy k0"
  shows "case y of Inl (Break k' le') \<Rightarrow> falsy k' \<longrightarrow> falsy k0
               | Inl (Return res) \<Rightarrow> True
               | Inr (k', le') \<Rightarrow> falsy k' \<longrightarrow> falsy k0"
  using assms
  by (auto simp: iteration_def split: prod.splits sum.splits if_splits loop_exit.splits
      dest!: tryBlock_key)

lemma uploadLoop_rule:
  assumes "Inv attempt k le w"
    and "\<And>a k le w. Inv a k le w \<Longrightarrow> \<not> a < MAX_ATTEMPTS \<Longrightarrow> Post (Inr (Break k le), w)"
    and "\<And>a k le w e w'. Inv a k le w \<Longrightarrow> a < MAX_ATTEMPTS \<Longrightarrow>
           iteration en rid recording start a k w = (Inl e, w') \<Longrightarrow> Post (Inl e, w')"
    and "\<And>a k le w x w'. Inv a k le w \<Longrightarrow> a < MAX_ATTEMPTS \<Longrightarrow>
           iteration en rid recording start a k w = (Inr (Inl x), w') \<Longrightarrow> Post (Inr x, w')"
    and "\<And>a k le w k' le' w'. Inv a k le w \<Longrightarrow> a < MAX_ATTEMPTS \<Longrightarrow>
           iteration en rid recording start a k w = (Inr (Inr (k', le')), w') \<Longrightarrow>
           Inv (a + 1) k' le' w'"
  shows "Post (uploadLoop en rid recording start attempt k le w)"
  using assms(1)
proof (induction "nat (MAX_ATTEMPTS - attempt)" arbitrary: attempt k le w rule: less_induct)
  case less
  show ?case
  proof (cases "attempt < MAX_ATTEMPTS")
    case False
    with less.prems assms(2) show ?thesis
      by (subst uploadLoop.simps) simp
  next
    case True
    obtain res w' where it: "iteration en rid recording start attempt k w = (res, w')"
      by (cases "iteration en rid recording start attempt k w")
    show ?thesis
    proof (cases res)
      case (Inl e)
      with it True less.prems assms(3) show ?thesis
        by (subst uploadLoop.simps) simp
    next
      case (Inr y)
      show ?thesis
      proof (cases y)
        case (Inl x)
        with Inr it True less.prems assms(4) show ?thesis
          by (subst uploadLoop.simps) simp
      next
        case (Inr kl)
        obtain k' le' where kl: "kl = (k', le')" by (cases kl)
        from it \<open>res = Inr y\<close> Inr kl
        have it': "iteration en rid recording start attempt k w = (Inr (Inr (k', le')), w')"
          by simp
        have inv: "Inv (attempt + 1) k' le' w'"
          using assms(5) [OF less.prems True it'] .
        have "nat (MAX_ATTEMPTS - (attempt + 1)) < nat (MAX_ATTEMPTS - attempt)"
          using True by simp
        from less.hyps [OF this inv]
        have "Post (uploadLoop en rid recording start (attempt + 1) k' le' w')" .
        with it' True show ?thesis
          by (subst uploadLoop.simps) simp
      qed
    qed
  qed
qed

lemma uploadLoop_steps:
  assumes "falsy k \<longrightarrow> falsy k0" and "start \<le> a"
  shows "steps (\<lambda>e. is_sleep e \<or> upload_event rid recording start k0 e) w
           (snd (uploadLoop en rid recording start a k le w))
         \<and> (\<forall>k' le'. fst (uploadLoop en rid recording start a k le w) = Inr (Break k' le')
               \<longrightarrow> (falsy k' \<longrightarrow> falsy k0))"
proof -
  let ?P = "\<lambda>e. is_sleep e \<or> upload_event rid recording start k0 e"
  let ?Inv = "\<lambda>a k (le :: string option) w1. start \<le> a \<and> (falsy k \<longrightarrow> falsy k0) \<and> steps ?P w w1"
  let ?Post = "\<lambda>p. steps ?P w (snd p)
                 \<and> (\<forall>k' le'. fst p = Inr (Break k' le') \<longrightarrow> (falsy k' \<longrightarrow> falsy k0))"
  have "?Post (uploadLoop en rid recording start a k le w)"
  proof (rule uploadLoop_rule [where Inv = ?Inv and Post = ?Post])
    show "?Inv a k le w" using assms by (simp add: steps_refl)
  next
    fix a k le w1 assume "?Inv a k le w1" "\<not> a < MAX_ATTEMPTS"
    then show "?Post (Inr (Break k le), w1)" by simp
  next
    fix a k le w1 e w'
    assume "?Inv a k le w1" "a < MAX_ATTEMPTS"
      "iteration en rid recording start a k w1 = (Inl e, w')"
    then show "?Post (Inl e, w')"
      using iteration_steps [of en rid recording start a k w1 "Inl e" w' k0]
      by (auto intro: steps_trans)
  next
    fix a k le w1 x w'
    assume "?Inv a k le w1" "a < MAX_ATTEMPTS"
      "iteration en rid recording start a k w1 = (Inr (Inl x), w')"
    then show "?Post (Inr x, w')"
      using iteration_steps [of en rid recording start a k w1 "Inr (Inl x)" w' k0]
        iteration_key [of en rid recording start a k w1 "Inl x" w' k0]
      by (auto intro: steps_trans)
  next
    fix a k le w1 k' le' w'
    assume "?Inv a k le w1" "a < MAX_ATTEMPTS"
      "iteration en rid recording start a k w1 = (Inr (Inr (k', le')), w')"
    then show "?Inv (a + 1) k' le' w'"
      using iteration_steps [of en rid recording start a k w1 "Inr (Inr (k', le'))" w' k0]
        iteration_key [of en rid recording start a k w1 "Inr (k', le')" w' k0]
      by (auto intro: steps_trans)
  qed
  then show ?thesis .
qed

lemma hydrate_fields [simp]:
  "id' (hydrateRecording r) = id' r"
  "filename (hydrateRecording r) = filename r"
  "status (hydrateRecording r) = status r"
  "s3Key (hydrateRecording r) = s3Key r"
  "uploadAttempts (hydrateRecording r) = uploadAttempts r"
  "lastError (hydrateRecording r) = lastError r"
  by (simp_all add: hydrateRecording_def rest_with_def split: stored_payload.splits)

lemma saveRecordingToDb_world:
  "snd (saveRecordingToDb en d w) = step (Fetch (SaveRecording d) (net en (now w))) w"
  using saveRecordingToDb_step [of en d w] by (cases "saveRecordingToDb en d w") simp

lemma terminalFailure_steps:
  assumes "terminalFailure en rid recording k le w = (r, w')"
  shows "steps (upload_event rid recording start k0) w w'"
  using assms
  by (auto simp: terminalFailure_def saveRecordingToDb_world split: prod.splits sum.splits
      dest!: updateRecordingStatus_step saveRecordingToDb_step
      intro!: steps_then steps_step upload_event.give_up upload_event.report)

lemma getRecordingById_result:
  "fst (getRecordingById en i w) =
     (case dbFault en (now w) of
        Some e \<Rightarrow> Inl e
      | None \<Rightarrow> Inr (map_option hydrateRecording (idb_get id' i (recordings w))))"
  by (simp add: getRecordingById_def split: option.splits)

lemma uploadRecording_steps: "steps (uploading rid w) w (snd (uploadRecording en rid w))"
proof -
  let ?P = "uploading rid w"
  obtain r1 w1 where g: "getRecordingById en rid w = (r1, w1)"
    by (cases "getRecordingById en rid w")
  have s1: "steps ?P w w1"
    using getRecordingById_step [OF g] by (simp add: steps_step uploading_def)
  show ?thesis
  proof (cases r1)
    case (Inl e)
    with g s1 show ?thesis by (simp add: uploadRecording_def)
  next
    case (Inr found)
    show ?thesis
    proof (cases found)
      case None
      with Inr g s1 show ?thesis by (simp add: uploadRecording_def)
    next
      case (Some recording)
      with Inr g getRecordingById_result [of en rid w]
      obtain r where r: "idb_get id' rid (recordings w) = Some r"
        and rec: "recording = hydrateRecording r"
        by (cases "idb_get id' rid (recordings w)") (auto split: option.splits)
      let ?Q = "\<lambda>e. is_sleep e \<or> upload_event rid recording (uploadAttempts recording) (s3Key recording) e"
      have QP: "?Q e \<Longrightarrow> ?P e" for e
        using r rec by (auto simp: uploading_def)
      let ?loop = "uploadLoop en rid recording (uploadAttempts recording)
                     (uploadAttempts recording) (s3Key recording) None w1"
      have "steps ?Q w1 (snd ?loop)"
        using uploadLoop_steps [of "s3Key recording" "s3Key recording" "uploadAttempts recording"
            "uploadAttempts recording" rid recording w1 en None] by simp
      then have "steps ?P w1 (snd ?loop)" using QP by (rule steps_mono)
      with s1 have s2: "steps ?P w (snd ?loop)" by (rule steps_trans)
      have s3: "steps ?P (snd ?loop) (snd (terminalFailure en rid recording k le (snd ?loop)))"
        for k le
        using terminalFailure_steps [of en rid recording k le "snd ?loop"
            "fst (terminalFailure en rid recording k le (snd ?loop))"
            "snd (terminalFailure en rid recording k le (snd ?loop))"
            "uploadAttempts recording" "s3Key recording"] QP
        by (auto intro: steps_mono)
      have s4: "steps ?P w (snd (terminalFailure en rid recording k le (snd ?loop)))" for k le
        using s2 s3 by (rule steps_trans)
      from Inr Some g s1 s2 s4 show ?thesis
        by (auto simp: uploadRecording_def split: prod.splits sum.splits loop_exit.splits)
    qed
  qed
qed

section \<open>Writes of the attempt count\<close>

lemma upload_event_budget:
  "upload_event rid recording start k0 e \<Longrightarrow> attempts_written e = Some n \<Longrightarrow> n \<le> MAX_ATTEMPTS"
  by (erule upload_event.cases) (auto simp: noExtras_def)

lemma uploading_budget:
  "uploading rid w e \<Longrightarrow> attempts_written e = Some n \<Longrightarrow> n \<le> MAX_ATTEMPTS"
  by (auto simp: uploading_def dest: upload_event_budget elim: is_sleep.elims)

lemma updated_attempts:
  "uploadAttempts (updated r st x) =
     (case uploadAttempts' x of Some n \<Rightarrow> n | None \<Rightarrow> uploadAttempts r)"
  by (simp add: updated_def)

lemma recordings_step_subset:
  "set (recordings (step e w)) \<subseteq>
     set (recordings w) \<union>
     (case e of
        Db (UpdateRecordingStatusOp i st x) None \<Rightarrow>
          (case idb_get id' i (recordings w) of Some r \<Rightarrow> {updated r st x} | None \<Rightarrow> {})
      | Db (SaveRecordingOp r) None \<Rightarrow> {r}
      | _ \<Rightarrow> {})"
proof (cases "(e, w)" rule: apply_event.cases)
qed (use set_idb_put [of id'] in \<open>auto simp: step_def idb_delete_def split: option.splits\<close>)

lemma budget_step:
  assumes "\<forall>n. attempts_written e = Some n \<longrightarrow> n \<le> MAX_ATTEMPTS"
    and "\<forall>r\<in>set (recordings w). uploadAttempts r \<le> MAX_ATTEMPTS"
  shows "\<forall>r\<in>set (recordings (step e w)). uploadAttempts r \<le> MAX_ATTEMPTS"
proof
  fix r assume "r \<in> set (recordings (step e w))"
  with recordings_step_subset [of e w] assms idb_get_SomeD [of id' _ "recordings w"]
  show "uploadAttempts r \<le> MAX_ATTEMPTS"
    by (auto simp: updated_attempts split: event.splits db_op.splits option.splits)
qed

section \<open>What the worker's tasks can log\<close>

lemma uploading_within_budget: "uploading rid w e \<Longrightarrow> within_budget e"
  using uploading_budget by (auto simp: within_budget_def)

lemma within_budget_other [simp]:
  "within_budget (Fetch req r)"
  "within_budget (Sleep d)"
  "within_budget (PostMessage res)"
  "within_budget SyncRegister"
  "within_budget (SetTimeout n)"
  "within_budget (Db GetAllRecordingsOp f)"
  "within_budget (Db (DeleteRecordingOp i) f)"
  "within_budget (Db (GetRecordingByIdOp i) f)"
  "within_budget (Db (AddPendingDeleteOp entry) f)"
  "within_budget (Db GetAllPendingDeletesOp f)"
  "within_budget (Db (RemovePendingDeleteOp i) f)"
  by (simp_all add: within_budget_def)

lemma broadcastStatus_step: "broadcastStatus res w = step (PostMessage res) w"
  by (simp add: broadcastStatus_def step_def)

lemma registerSync_steps: "steps within_budget w (registerSync en w)"
proof -
  have "emit SyncRegister w = step SyncRegister w"
    by (simp add: step_def)
  then show ?thesis
    by (simp add: registerSync_def steps_refl steps_step)
qed

lemma scheduleRetry_steps: "steps within_budget w (scheduleRetry w)"
proof -
  have "emit (SetTimeout 5000) (w\<lparr>retryTimer := True\<rparr>) = step (SetTimeout 5000) w"
    by (simp add: step_def)
  then show ?thesis
    by (simp add: scheduleRetry_def steps_refl steps_step)
qed

lemma checkConnectivity_step:
  "checkConnectivity en w = (r, w') \<Longrightarrow> w' = step (Fetch Health (net en (now w))) w"
  by (auto simp: checkConnectivity_def fetch_def step_def split: fetch_reply.splits)

lemma deleteRecordingFromServer_step:
  "deleteRecordingFromServer en k i w = (r, w') \<Longrightarrow>
     w' = step (Fetch (DeleteRecordingReq k i) (net en (now w))) w"
  by (auto simp: deleteRecordingFromServer_def fetch_def step_def split: fetch_reply.splits)

lemma addPendingDelete_step:
  "addPendingDelete en entry w = (r, w') \<Longrightarrow>
     w' = step (Db (AddPendingDeleteOp entry) (dbFault en (now w))) w"
  by (auto simp: addPendingDelete_def step_def emit_def split: option.splits)

lemma getAllPendingDeletes_step:
  "getAllPendingDeletes en w = (r, w') \<Longrightarrow>
     w' = step (Db GetAllPendingDeletesOp (dbFault en (now w))) w"
  by (auto simp: getAllPendingDeletes_def step_def emit_def split: option.splits)

lemma removePendingDelete_step:
  "removePendingDelete en i w = (r, w') \<Longrightarrow>
     w' = step (Db (RemovePendingDeleteOp i) (dbFault en (now w))) w"
  by (auto simp: removePendingDelete_def step_def emit_def split: option.splits)

lemma removePendingDelete_world:
  "snd (removePendingDelete en i w) = step (Db (RemovePendingDeleteOp i) (dbFault en (now w))) w"
  using removePendingDelete_step [of en i w] by (cases "removePendingDelete en i w") simp

lemma getAllRecordings_step:
  "getAllRecordings en w = (r, w') \<Longrightarrow> w' = step (Db GetAllRecordingsOp (dbFault en (now w))) w"
  by (auto simp: getAllRecordings_def step_def emit_def split: option.splits)

lemmas worker_steps =
  checkConnectivity_step deleteRecordingFromServer_step addPendingDelete_step
  getAllPendingDeletes_step removePendingDelete_step getAllRecordings_step

lemma uploadRecording_budget_steps:
  "steps within_budget w (snd (uploadRecording en rid w))"
  using uploadRecording_steps [of rid w en] uploading_within_budget by (rule steps_mono)

lemma uploadRecording_budget_stepsD:
  "uploadRecording en rid w = (r, w') \<Longrightarrow> steps within_budget w w'"
  using uploadRecording_budget_steps [of w en rid] by simp

lemma steps_sched: "steps within_budget w v \<Longrightarrow> steps within_budget w (scheduleRetry v)"
  by (erule steps_trans) (rule scheduleRetry_steps)

lemma steps_reg: "steps within_budget w v \<Longrightarrow> steps within_budget w (registerSync en v)"
  by (erule steps_trans) (rule registerSync_steps)

lemmas steps_intros = steps_then steps_sched steps_reg steps_refl

lemma upload_and_report_steps:
  assumes "steps within_budget w v"
  shows "steps within_budget w
           (snd (case uploadRecording en rid
                        (broadcastStatus \<lparr> success = False, recordingId = rid,
                                           r_status = Uploading, error = None \<rparr> v) of
                   (Inl e, w2) \<Rightarrow> (Inl e, w2)
                 | (Inr result, w2) \<Rightarrow>
                     (Inr (), afterUpload en result (broadcastStatus result w2))))"
proof -
  let ?v1 = "broadcastStatus \<lparr> success = False, recordingId = rid, r_status = Uploading,
                               error = None \<rparr> v"
  obtain r w2 where u: "uploadRecording en rid ?v1 = (r, w2)"
    by (cases "uploadRecording en rid ?v1")
  have "steps within_budget w ?v1"
    using assms by (simp add: broadcastStatus_step steps_then)
  with uploadRecording_budget_stepsD [OF u] have s2: "steps within_budget w w2"
    by (rule steps_trans [rotated])
  then show ?thesis
    using u [unfolded broadcastStatus_step]
    by (cases r) (auto simp: afterUpload_def broadcastStatus_step intro!: steps_intros)
qed

lemma handleUpload_steps: "steps within_budget w (snd (handleUpload en rid w))"
proof (cases "onLine en (now w)")
  case False
  then show ?thesis by (simp add: handleUpload_def registerSync_steps)
next
  case True
  show ?thesis
  proof (cases "isSafari en")
    case False
    with True upload_and_report_steps [OF steps_refl, of w en rid] show ?thesis
      by (simp add: handleUpload_def)
  next
    case safari: True
    obtain c w1 where c: "checkConnectivity en w = (c, w1)"
      by (cases "checkConnectivity en w")
    from checkConnectivity_step [OF c] have s1: "steps within_budget w w1"
      by (simp add: steps_step)
    show ?thesis
    proof (cases c)
      case True
      with \<open>onLine en (now w)\<close> safari c upload_and_report_steps [OF s1, of en rid]
      show ?thesis by (simp add: handleUpload_def)
    next
      case False
      with \<open>onLine en (now w)\<close> safari c s1 show ?thesis
        by (simp add: handleUpload_def steps_sched)
    qed
  qed
qed

lemma handleDelete_steps: "steps within_budget w (snd (handleDelete en rid k w))"
  by (auto simp: handleDelete_def split: prod.splits sum.splits
      dest!: worker_steps intro!: steps_intros)

lemma retryEach_steps: "steps within_budget w (retryEach en pending w)"
proof (induction pending arbitrary: w)
  case Nil
  show ?case by (simp add: steps_refl)
next
  case (Cons entry pending)
  have rest: "steps within_budget w v \<Longrightarrow> steps within_budget w (retryEach en pending v)" for v
    by (erule steps_trans) (rule Cons.IH)
  show ?case
    by (auto simp: removePendingDelete_world split: prod.splits sum.splits
        dest!: deleteRecordingFromServer_step intro!: rest steps_intros)
qed

lemma handleRetryDeletes_steps: "steps within_budget w (snd (handleRetryDeletes en w))"
proof -
  have rest: "steps within_budget w v \<Longrightarrow> steps within_budget w (retryEach en pending v)"
    for v pending
    by (erule steps_trans) (rule retryEach_steps)
  show ?thesis
    by (auto simp: handleRetryDeletes_def split: prod.splits sum.splits
        dest!: getAllPendingDeletes_step intro!: rest steps_intros)
qed

lemma uploadEach_steps: "steps within_budget w (snd (uploadEach en pending results w))"
proof (induction pending arbitrary: results w)
  case Nil
  show ?case by (simp add: steps_refl)
next
  case (Cons recording pending)
  obtain r w1 where u: "uploadRecording en (id' recording) w = (r, w1)"
    by (cases "uploadRecording en (id' recording) w")
  note s1 = uploadRecording_budget_stepsD [OF u]
  show ?case
  proof (cases r)
    case (Inl e)
    with u s1 show ?thesis by simp
  next
    case (Inr result)
    with u steps_trans [OF s1 Cons.IH [of w1 "results @ [result]"]] show ?thesis by simp
  qed
qed

lemma uploadAllPending_steps: "steps within_budget w (snd (uploadAllPending en w))"
proof -
  obtain r w1 where g: "getAllRecordings en w = (r, w1)"
    by (cases "getAllRecordings en w")
  from getAllRecordings_step [OF g] have s1: "steps within_budget w w1"
    by (simp add: steps_step)
  show ?thesis
  proof (cases r)
    case (Inl e)
    with g s1 show ?thesis by (simp add: uploadAllPending_def getRecordingsByStatus_def)
  next
    case (Inr all)
    with g steps_trans [OF s1 uploadEach_steps] show ?thesis
      by (simp add: uploadAllPending_def getRecordingsByStatus_def)
  qed
qed

lemma fold_broadcast_steps: "steps within_budget w (fold broadcastStatus results w)"
proof (induction results arbitrary: w)
  case Nil
  show ?case by (simp add: steps_refl)
next
  case (Cons r results)
  have "steps within_budget w (broadcastStatus r w)"
    by (simp add: broadcastStatus_step steps_step)
  then show ?case using Cons.IH by (auto intro: steps_trans)
qed

lemma handleRetryAll_steps: "steps within_budget w (snd (handleRetryAll en w))"
proof -
  obtain r1 w1 where d: "handleRetryDeletes en w = (r1, w1)"
    by (cases "handleRetryDeletes en w")
  from handleRetryDeletes_steps [of w en] d have s1: "steps within_budget w w1" by simp
  obtain r2 w2 where u: "uploadAllPending en w1 = (r2, w2)"
    by (cases "uploadAllPending en w1")
  from uploadAllPending_steps [of w1 en] u s1 have s2: "steps within_budget w w2"
    by (auto intro: steps_trans)
  have s3: "steps within_budget w (fold broadcastStatus results w2)" for results
    using s2 fold_broadcast_steps by (rule steps_trans)
  show ?thesis
  proof (cases r1)
    case (Inl e)
    with d s1 show ?thesis by (simp add: handleRetryAll_def)
  next
    case r1: (Inr x)
    show ?thesis
    proof (cases r2)
      case (Inl e)
      with r1 d u s2 show ?thesis by (simp add: handleRetryAll_def)
    next
      case (Inr results)
      obtain r3 w3 where g: "getAllPendingDeletes en (fold broadcastStatus results w2) = (r3, w3)"
        by (cases "getAllPendingDeletes en (fold broadcastStatus results w2)")
      from getAllPendingDeletes_step [OF g] s3 [of results] have s4: "steps within_budget w w3"
        by (simp add: steps_then)
      from r1 Inr d u g s4 show ?thesis
        by (cases r3) (auto simp: handleRetryAll_def intro!: steps_intros)
    qed
  qed
qed

lemma enqueue_run: "enqueue t q w = t (snd (q w))"
  by (simp add: enqueue_def promise_then_def split: prod.splits sum.splits)

lemma onMessage_run:
  "onMessage en m q w =
     (case m of
        UPLOAD_RECORDING rid \<Rightarrow> handleUpload en rid
      | DELETE_RECORDING rid k \<Rightarrow> handleDelete en rid k
      | RETRY_ALL_UPLOADS \<Rightarrow> handleRetryAll en) (snd (q w))"
  by (cases m) (simp_all add: enqueue_run)

lemma onMessage_steps:
  "steps within_budget w (snd (q w)) \<Longrightarrow> steps within_budget w (snd (onMessage en m q w))"
  by (cases m)
    (auto simp: enqueue_run
      intro: steps_trans handleUpload_steps handleDelete_steps handleRetryAll_steps)

lemma lane_steps:
  "steps within_budget w (snd (q w)) \<Longrightarrow>
     steps within_budget w (snd (fold (onMessage en) ms q w))"
  by (induction ms arbitrary: q) (auto intro: onMessage_steps)

section \<open>The ways through one pass of the loop\<close>

lemma transferObject_cases [consumes 1, case_names skipped url_failed put_failed checkpoint_failed stored]:
  assumes "transferObject en rid recording k w = (r, k', w')"
  obtains
    (skipped) "\<not> falsy k" "r = Inr ()" "k' = k" "w' = w"
  | (url_failed) e where "falsy k" "getPresignedUrl en (filename recording) w = (Inl e, w')"
      "r = Inl e" "k' = k"
  | (put_failed) u w1 e where "falsy k" "getPresignedUrl en (filename recording) w = (Inr u, w1)"
      "putToS3 en (url u) (blob recording) (or_else (type' (blob recording)) ''audio/webm'') w1
         = (Inl e, w')"
      "r = Inl e" "k' = k"
  | (checkpoint_failed) u w1 w2 e where "falsy k"
      "getPresignedUrl en (filename recording) w = (Inr u, w1)"
      "putToS3 en (url u) (blob recording) (or_else (type' (blob recording)) ''audio/webm'') w1
         = (Inr (), w2)"
      "updateRecordingStatus en rid Uploading (noExtras\<lparr>s3Key' := Some (key u)\<rparr>) w2 = (Inl e, w')"
      "r = Inl e" "k' = Some (key u)"
  | (stored) u w1 w2 x where "falsy k"
      "getPresignedUrl en (filename recording) w = (Inr u, w1)"
      "putToS3 en (url u) (blob recording) (or_else (type' (blob recording)) ''audio/webm'') w1
         = (Inr (), w2)"
      "updateRecordingStatus en rid Uploading (noExtras\<lparr>s3Key' := Some (key u)\<rparr>) w2 = (Inr x, w')"
      "r = Inr ()" "k' = Some (key u)"
proof (cases "falsy k")
  case False
  with assms have "r = Inr ()" "k' = k" "w' = w" by (simp_all add: transferObject_def)
  with False show thesis by (rule skipped)
next
  case True
  obtain r1 w1 where g: "getPresignedUrl en (filename recording) w = (r1, w1)"
    by (cases "getPresignedUrl en (filename recording) w")
  show thesis
  proof (cases r1)
    case (Inl e)
    with assms True g have "r = Inl e" "k' = k" "w' = w1" by (simp_all add: transferObject_def)
    with True g Inl show thesis by (intro url_failed [of e]) simp_all
  next
    case (Inr u)
    note g' = g [unfolded Inr]
    obtain r2 w2 where p: "putToS3 en (url u) (blob recording)
        (or_else (type' (blob recording)) ''audio/webm'') w1 = (r2, w2)"
      by (cases "putToS3 en (url u) (blob recording)
        (or_else (type' (blob recording)) ''audio/webm'') w1")
    show thesis
    proof (cases r2)
      case (Inl e)
      with assms True g' p have "r = Inl e" "k' = k" "w' = w2"
        by (simp_all add: transferObject_def)
      with True g' p Inl show thesis by (intro put_failed [of u w1 e]) simp_all
    next
      case r2: (Inr x2)
      then have p': "putToS3 en (url u) (blob recording)
        (or_else (type' (blob recording)) ''audio/webm'') w1 = (Inr (), w2)"
        using p by simp
      obtain r3 w3 where c: "updateRecordingStatus en rid Uploading
          (noExtras\<lparr>s3Key' := Some (key u)\<rparr>) w2 = (r3, w3)"
        by (cases "updateRecordingStatus en rid Uploading
          (noExtras\<lparr>s3Key' := Some (key u)\<rparr>) w2")
      show thesis
      proof (cases r3)
        case (Inl e)
        with assms True g' p' c have "r = Inl e" "k' = Some (key u)" "w' = w3"
          by (simp_all add: transferObject_def)
        with True g' p' c Inl show thesis
          by (intro checkpoint_failed [of u w1 w2 e]) simp_all
      next
        case (Inr x)
        with assms True g' p' c have "r = Inr ()" "k' = Some (key u)" "w' = w3"
          by (simp_all add: transferObject_def)
        with True g' p' c Inr show thesis
          by (intro stored [of u w1 w2 x]) simp_all
      qed
    qed
  qed
qed

lemma tryBlock_cases [consumes 1, case_names transfer_failed commit_failed purge_failed purged]:
  assumes "tryBlock en rid recording k w = (r, k', w')"
  obtains
    (transfer_failed) e where "transferObject en rid recording k w = (Inl e, k', w')" "r = Inl e"
  | (commit_failed) w1 e where "transferObject en rid recording k w = (Inr (), k', w1)"
      "saveRecordingToDb en (dbData recording k' Synced None) w1 = (Inl e, w')" "r = Inl e"
  | (purge_failed) w1 w2 e where "transferObject en rid recording k w = (Inr (), k', w1)"
      "saveRecordingToDb en (dbData recording k' Synced None) w1 = (Inr (), w2)"
      "deleteRecording en rid w2 = (Inl e, w')" "r = Inl e"
  | (purged) w1 w2 where "transferObject en rid recording k w = (Inr (), k', w1)"
      "saveRecordingToDb en (dbData recording k' Synced None) w1 = (Inr (), w2)"
      "deleteRecording en rid w2 = (Inr (), w')" "r = Inr ()"
proof -
  obtain r1 k1 w1 where t: "transferObject en rid recording k w = (r1, k1, w1)"
    by (cases "transferObject en rid recording k w")
  show thesis
  proof (cases r1)
    case (Inl e)
    with assms t have "r = Inl e" "k' = k1" "w' = w1" by (simp_all add: tryBlock_def)
    with t Inl show thesis by (intro transfer_failed [of e]) simp_all
  next
    case r1: (Inr x1)
    then have t': "transferObject en rid recording k w = (Inr (), k1, w1)" using t by simp
    obtain r2 w2 where s: "saveRecordingToDb en (dbData recording k1 Synced None) w1 = (r2, w2)"
      by (cases "saveRecordingToDb en (dbData recording k1 Synced None) w1")
    show thesis
    proof (cases r2)
      case (Inl e)
      with assms t' s have "r = Inl e" "k' = k1" "w' = w2" by (simp_all add: tryBlock_def)
      with t' s Inl show thesis by (intro commit_failed [of w1 e]) simp_all
    next
      case r2: (Inr x2)
      then have s': "saveRecordingToDb en (dbData recording k1 Synced None) w1 = (Inr (), w2)"
        using s by simp
      obtain r3 w3 where d: "deleteRecording en rid w2 = (r3, w3)"
        by (cases "deleteRecording en rid w2")
      show thesis
      proof (cases r3)
        case (Inl e)
        with assms t' s' d have "r = Inl e" "k' = k1" "w' = w3" by (simp_all add: tryBlock_def)
        with t' s' d Inl show thesis by (intro purge_failed [of w1 w2 e]) simp_all
      next
        case (Inr x3)
        with assms t' s' d have "r = Inr ()" "k' = k1" "w' = w3" by (simp_all add: tryBlock_def)
        with t' s' d Inr show thesis by (intro purged [of w1 w2]) simp_all
      qed
    qed
  qed
qed

lemma updateRecordingStatus_result:
  "updateRecordingStatus en i st x w = (r, w') \<Longrightarrow>
     (case r of Inl e \<Rightarrow> dbFault en (now w) = Some e | Inr y \<Rightarrow> dbFault en (now w) = None)"
  by (auto simp: updateRecordingStatus_def split: option.splits)

lemma deleteRecording_result:
  "deleteRecording en i w = (r, w') \<Longrightarrow>
     (case r of Inl e \<Rightarrow> dbFault en (now w) = Some e | Inr y \<Rightarrow> dbFault en (now w) = None)"
  by (auto simp: deleteRecording_def split: option.splits)

lemma putToS3_ok:
  "putToS3 en u b t w = (Inr x, w') \<Longrightarrow> \<exists>st body. net en (now w) = Response st body \<and> ok st"
  by (auto simp: putToS3_def fetch_def split: fetch_reply.splits if_splits)

lemma saveRecordingToDb_ok:
  "saveRecordingToDb en d w = (Inr x, w') \<Longrightarrow> \<exists>st body. net en (now w) = Response st body \<and> ok st"
  by (auto simp: saveRecordingToDb_def fetch_def split: fetch_reply.splits if_splits)

lemma iteration_cases [consumes 1, case_names fault synced network other]:
  assumes "iteration en rid recording start a k w = (r, w')"
  obtains
    (fault) e where
      "updateRecordingStatus en rid Uploading (noExtras\<lparr>uploadAttempts' := Some (a + 1)\<rparr>)
         (if a > start then sleep (backoffDelay (a - 1) (random en (now w))) w else w) = (Inl e, w')"
      "r = Inl e"
  | (synced) x w1 k' where
      "updateRecordingStatus en rid Uploading (noExtras\<lparr>uploadAttempts' := Some (a + 1)\<rparr>)
         (if a > start then sleep (backoffDelay (a - 1) (random en (now w))) w else w) = (Inr x, w1)"
      "tryBlock en rid recording k w1 = (Inr (), k', w')"
      "r = Inr (Inl (Return \<lparr> success = True, recordingId = rid, r_status = Synced,
                              error = None \<rparr>))"
  | (network) x w1 err k' w2 y where
      "updateRecordingStatus en rid Uploading (noExtras\<lparr>uploadAttempts' := Some (a + 1)\<rparr>)
         (if a > start then sleep (backoffDelay (a - 1) (random en (now w))) w else w) = (Inr x, w1)"
      "tryBlock en rid recording k w1 = (Inl err, k', w2)" "isNetworkError err"
      "updateRecordingStatus en rid Local (noExtras\<lparr>uploadAttempts' := Some start\<rparr>) w2 = (y, w')"
      "r = (case y of
              Inl e \<Rightarrow> Inl e
            | Inr z \<Rightarrow>
                Inr (Inl (Return \<lparr> success = False, recordingId = rid, r_status = Local,
                                    error = Some (if instanceof_Error err then message err
                                                  else ''Unknown error'') \<rparr>)))"
  | (other) x w1 err k' where
      "updateRecordingStatus en rid Uploading (noExtras\<lparr>uploadAttempts' := Some (a + 1)\<rparr>)
         (if a > start then sleep (backoffDelay (a - 1) (random en (now w))) w else w) = (Inr x, w1)"
      "tryBlock en rid recording k w1 = (Inl err, k', w')" "\<not> isNetworkError err"
      "r = Inr (if \<not> isRetryableError err \<or> a + 1 \<ge> MAX_ATTEMPTS
                then Inl (Break k' (Some (if instanceof_Error err then message err
                                          else ''Unknown error'')))
                else Inr (k', Some (if instanceof_Error err then message err
                                    else ''Unknown error'')))"
proof -
  let ?w0 = "if a > start then sleep (backoffDelay (a - 1) (random en (now w))) w else w"
  let ?up = "updateRecordingStatus en rid Uploading (noExtras\<lparr>uploadAttempts' := Some (a + 1)\<rparr>) ?w0"
  obtain r1 w1 where u: "?up = (r1, w1)" by (cases ?up)
  show thesis
  proof (cases r1)
    case (Inl e)
    with assms u have "r = Inl e" "w' = w1" by (simp_all add: iteration_def)
    with u Inl show thesis by (intro fault [of e]) simp_all
  next
    case r1: (Inr x)
    then have u': "?up = (Inr x, w1)" using u by simp
    obtain r2 k2 w2 where t: "tryBlock en rid recording k w1 = (r2, k2, w2)"
      by (cases "tryBlock en rid recording k w1")
    show thesis
    proof (cases r2)
      case (Inr x2)
      then have t': "tryBlock en rid recording k w1 = (Inr (), k2, w2)" using t by simp
      with assms u' have "r = Inr (Inl (Return \<lparr> success = True, recordingId = rid,
          r_status = Synced, error = None \<rparr>))" "w' = w2"
        by (simp_all add: iteration_def)
      with u' t' show thesis by (intro synced [of x w1 k2]) simp_all
    next
      case (Inl err)
      then have t': "tryBlock en rid recording k w1 = (Inl err, k2, w2)" using t by simp
      show thesis
      proof (cases "isNetworkError err")
        case True
        obtain y w3 where l: "updateRecordingStatus en rid Local
            (noExtras\<lparr>uploadAttempts' := Some start\<rparr>) w2 = (y, w3)"
          by (cases "updateRecordingStatus en rid Local
            (noExtras\<lparr>uploadAttempts' := Some start\<rparr>) w2")
        with assms u' t' True have "w' = w3"
          "r = (case y of
              Inl e \<Rightarrow> Inl e
            | Inr z \<Rightarrow>
                Inr (Inl (Return \<lparr> success = False, recordingId = rid, r_status = Local,
                                    error = Some (if instanceof_Error err then message err
                                                  else ''Unknown error'') \<rparr>)))"
          by (auto simp: iteration_def split: sum.splits)
        with u' t' True l show thesis by (intro network [of x w1 err k2 w2 y]) simp_all
      next
        case False
        with assms u' t' have "w' = w2"
          "r = Inr (if \<not> isRetryableError err \<or> a + 1 \<ge> MAX_ATTEMPTS
                then Inl (Break k2 (Some (if instanceof_Error err then message err
                                          else ''Unknown error'')))
                else Inr (k2, Some (if instanceof_Error err then message err
                                    else ''Unknown error'')))"
          by (auto simp: iteration_def split: if_splits)
        with u' t' False show thesis by (intro other [of x w1 err k2]) simp_all
      qed
    qed
  qed
qed

section \<open>Rounding to a double\<close>





lemma ulp_pos [simp]: "0 < ulp x"
  by (simp add: ulp_def)

lemma ulp_nonneg [simp]: "0 \<le> ulp x"
  by (rule less_imp_le) (rule ulp_pos)



section \<open>Sleeping between attempts\<close>



















section \<open>The purge is guarded\<close>

lemma purge_guarded_single:
  "purge_guarded p c [e] = ((is_purge e \<longrightarrow> p \<and> c) \<and> (records_key e \<longrightarrow> p))"
  by (cases "(p, c, [e])" rule: purge_guarded.cases) simp_all

lemma purge_guarded_snoc:
  "purge_guarded p c (xs @ [e]) =
     (purge_guarded p c xs \<and>
      (is_purge e \<longrightarrow> (p \<or> list_ex put_ok xs) \<and> (c \<or> list_ex commit_ok xs)) \<and>
      (records_key e \<longrightarrow> p \<or> list_ex put_ok xs))"
proof (induction p c xs rule: purge_guarded.induct)
  case (1 p c)
  show ?case by (simp add: purge_guarded_single)
qed (auto simp: purge_guarded_single)

lemma events_since_fold_step [simp]: "events_since w0 (step e (fold step evs w0)) = evs @ [e]"
  by (simp add: events_since_def)

lemma guarded_refl: "guarded p w w"
  unfolding guarded_def by (rule exI [of _ "[]"]) simp

lemma s3Key'_noExtras [simp]: "s3Key' noExtras = None"
  by (simp add: noExtras_def)

lemma guarded_step:
  assumes "guarded p w0 w" and "\<not> is_purge e" and "\<not> records_key e"
  shows "guarded p w0 (step e w)"
proof -
  from assms(1) obtain evs where w: "w = fold step evs w0" and g: "purge_guarded p False evs"
    unfolding guarded_def by blast
  from w have "step e w = fold step (evs @ [e]) w0" by simp
  moreover from g assms(2,3) have "purge_guarded p False (evs @ [e])"
    by (simp add: purge_guarded_snoc)
  ultimately show ?thesis unfolding guarded_def by blast
qed

lemma guarded_key:
  assumes "guarded p w0 w" and "put_seen p w0 w"
  shows "guarded p w0 (step (Db (UpdateRecordingStatusOp i st x) f) w)"
proof -
  from assms(1) obtain evs where w: "w = fold step evs w0" and g: "purge_guarded p False evs"
    unfolding guarded_def by blast
  from w have "step (Db (UpdateRecordingStatusOp i st x) f) w =
                 fold step (evs @ [Db (UpdateRecordingStatusOp i st x) f]) w0"
    by simp
  moreover from g assms(2) w
  have "purge_guarded p False (evs @ [Db (UpdateRecordingStatusOp i st x) f])"
    by (simp add: purge_guarded_snoc put_seen_def)
  ultimately show ?thesis unfolding guarded_def by blast
qed

lemma guarded_purge:
  assumes "guarded p w0 w" and "put_seen p w0 w" and "commit_seen w0 w"
  shows "guarded p w0 (step (Db (DeleteRecordingOp i) f) w)"
proof -
  from assms(1) obtain evs where w: "w = fold step evs w0" and g: "purge_guarded p False evs"
    unfolding guarded_def by blast
  from w have "step (Db (DeleteRecordingOp i) f) w = fold step (evs @ [Db (DeleteRecordingOp i) f]) w0"
    by simp
  moreover from g assms(2,3) w
  have "purge_guarded p False (evs @ [Db (DeleteRecordingOp i) f])"
    by (simp add: purge_guarded_snoc put_seen_def commit_seen_def)
  ultimately show ?thesis unfolding guarded_def by blast
qed

lemma put_seen_step:
  assumes "guarded p w0 w" and "put_seen p w0 w"
  shows "put_seen p w0 (step e w)"
proof -
  from assms(1) obtain evs where w: "w = fold step evs w0"
    unfolding guarded_def by blast
  with assms(2) show ?thesis by (auto simp: put_seen_def)
qed

lemma put_seen_new:
  assumes "guarded p w0 w" and "put_ok e"
  shows "put_seen p w0 (step e w)"
proof -
  from assms(1) obtain evs where w: "w = fold step evs w0"
    unfolding guarded_def by blast
  with assms(2) show ?thesis by (auto simp: put_seen_def)
qed

lemma commit_seen_new:
  assumes "guarded p w0 w" and "commit_ok e"
  shows "commit_seen w0 (step e w)"
proof -
  from assms(1) obtain evs where w: "w = fold step evs w0"
    unfolding guarded_def by blast
  with assms(2) show ?thesis by (auto simp: commit_seen_def)
qed

lemma transferObject_guarded:
  assumes "transferObject en rid recording k w = (r, k', w')" and "guarded p w0 w"
    and "\<not> falsy k \<longrightarrow> put_seen p w0 w"
  shows "guarded p w0 w' \<and> (r = Inr () \<longrightarrow> put_seen p w0 w') \<and> (\<not> falsy k' \<longrightarrow> put_seen p w0 w')"
  using assms(1)
proof (cases rule: transferObject_cases)
  case skipped
  with assms show ?thesis by simp
next
  case (url_failed e)
  with getPresignedUrl_step [OF url_failed(2)] assms(2) show ?thesis
    by (simp add: guarded_step)
next
  case (put_failed u w1 e)
  with getPresignedUrl_step [OF put_failed(2)] putToS3_step [OF put_failed(3)] assms(2)
  show ?thesis by (simp add: guarded_step)
next
  case (checkpoint_failed u w1 w2 e)
  from getPresignedUrl_step [OF checkpoint_failed(2)] assms(2)
  have g1: "guarded p w0 w1" by (simp add: guarded_step)
  from putToS3_ok [OF checkpoint_failed(3)] putToS3_step [OF checkpoint_failed(3)] g1
  have g2: "guarded p w0 w2" and p2: "put_seen p w0 w2"
    by (auto simp: guarded_step put_seen_new)
  from updateRecordingStatus_step [OF checkpoint_failed(4)] g2 p2
  have "guarded p w0 w'" "put_seen p w0 w'"
    by (simp_all add: guarded_key put_seen_step)
  with checkpoint_failed show ?thesis by simp
next
  case (stored u w1 w2 x)
  from getPresignedUrl_step [OF stored(2)] assms(2)
  have g1: "guarded p w0 w1" by (simp add: guarded_step)
  from putToS3_ok [OF stored(3)] putToS3_step [OF stored(3)] g1
  have g2: "guarded p w0 w2" and p2: "put_seen p w0 w2"
    by (auto simp: guarded_step put_seen_new)
  from updateRecordingStatus_step [OF stored(4)] g2 p2
  have "guarded p w0 w'" "put_seen p w0 w'"
    by (simp_all add: guarded_key put_seen_step)
  then show ?thesis by simp
qed

lemma tryBlock_guarded:
  assumes "tryBlock en rid recording k w = (r, k', w')" and "guarded p w0 w"
    and "\<not> falsy k \<longrightarrow> put_seen p w0 w"
  shows "guarded p w0 w' \<and> (\<not> falsy k' \<longrightarrow> put_seen p w0 w')"
  using assms(1)
proof (cases rule: tryBlock_cases)
  case (transfer_failed e)
  from transferObject_guarded [OF transfer_failed(1) assms(2,3)] show ?thesis by simp
next
  case (commit_failed w1 e)
  from transferObject_guarded [OF commit_failed(1) assms(2,3)]
    saveRecordingToDb_step [OF commit_failed(2)]
  show ?thesis by (simp add: guarded_step put_seen_step)
next
  case (purge_failed w1 w2 e)
  from transferObject_guarded [OF purge_failed(1) assms(2,3)]
  have g1: "guarded p w0 w1" and p1: "put_seen p w0 w1" by simp_all
  from saveRecordingToDb_ok [OF purge_failed(2)] saveRecordingToDb_step [OF purge_failed(2)] g1 p1
  have g2: "guarded p w0 w2" and p2: "put_seen p w0 w2" and c2: "commit_seen w0 w2"
    by (auto simp: guarded_step put_seen_step commit_seen_new dbData_def)
  from deleteRecording_step [OF purge_failed(3)] g2 p2 c2
  show ?thesis by (simp add: guarded_purge put_seen_step)
next
  case (purged w1 w2)
  from transferObject_guarded [OF purged(1) assms(2,3)]
  have g1: "guarded p w0 w1" and p1: "put_seen p w0 w1" by simp_all
  from saveRecordingToDb_ok [OF purged(2)] saveRecordingToDb_step [OF purged(2)] g1 p1
  have g2: "guarded p w0 w2" and p2: "put_seen p w0 w2" and c2: "commit_seen w0 w2"
    by (auto simp: guarded_step put_seen_step commit_seen_new dbData_def)
  from deleteRecording_step [OF purged(3)] g2 p2 c2
  show ?thesis by (simp add: guarded_purge put_seen_step)
qed

lemma attempt_guarded:
  assumes "updateRecordingStatus en rid Uploading (noExtras\<lparr>uploadAttempts' := Some (a + 1)\<rparr>)
             (if a > start then sleep (backoffDelay (a - 1) (random en (now w))) w else w) = (x, w1)"
    and "guarded p w0 w" and "\<not> falsy k \<longrightarrow> put_seen p w0 w"
  shows "guarded p w0 w1 \<and> (\<not> falsy k \<longrightarrow> put_seen p w0 w1)"
  using updateRecordingStatus_step [OF assms(1)] assms(2,3)
  by (cases "a > start") (simp_all add: sleep_step guarded_step put_seen_step)

lemma iteration_guarded:
  assumes "iteration en rid recording start a k w = (r, w')" and "guarded p w0 w"
    and "\<not> falsy k \<longrightarrow> put_seen p w0 w"
  shows "guarded p w0 w'
         \<and> (\<forall>k' le'. r = Inr (Inr (k', le')) \<longrightarrow> \<not> falsy k' \<longrightarrow> put_seen p w0 w')"
  using assms(1)
proof (cases rule: iteration_cases)
  case (fault e)
  from attempt_guarded [OF fault(1) assms(2,3)] fault(2) show ?thesis by simp
next
  case (synced x w1 k')
  from attempt_guarded [OF synced(1) assms(2,3)]
  have "guarded p w0 w1" "\<not> falsy k \<longrightarrow> put_seen p w0 w1" by simp_all
  from tryBlock_guarded [OF synced(2) this] synced(3) show ?thesis by simp
next
  case (network x w1 err k' w2 y)
  from attempt_guarded [OF network(1) assms(2,3)]
  have "guarded p w0 w1" "\<not> falsy k \<longrightarrow> put_seen p w0 w1" by simp_all
  from tryBlock_guarded [OF network(2) this] have "guarded p w0 w2" by simp
  with updateRecordingStatus_step [OF network(4)] have "guarded p w0 w'"
    by (simp add: guarded_step)
  with network(5) show ?thesis by (auto split: sum.splits)
next
  case (other x w1 err k')
  from attempt_guarded [OF other(1) assms(2,3)]
  have "guarded p w0 w1" "\<not> falsy k \<longrightarrow> put_seen p w0 w1" by simp_all
  from tryBlock_guarded [OF other(2) this] other(4) show ?thesis
    by (auto split: if_splits)
qed

lemma uploadLoop_guarded:
  assumes "guarded p w0 w" and "\<not> falsy k \<longrightarrow> put_seen p w0 w"
  shows "guarded p w0 (snd (uploadLoop en rid recording start a k le w))"
proof -
  let ?Inv = "\<lambda>(a :: int) k (le :: string option) v.
                guarded p w0 v \<and> (\<not> falsy k \<longrightarrow> put_seen p w0 v)"
  let ?Post = "\<lambda>q :: (js_error + loop_exit) \<times> world. guarded p w0 (snd q)"
  have "?Post (uploadLoop en rid recording start a k le w)"
  proof (rule uploadLoop_rule [where Inv = ?Inv and Post = ?Post])
    show "?Inv a k le w" using assms by simp
  qed (use iteration_guarded in \<open>auto\<close>)
  then show ?thesis .
qed

lemma terminalFailure_guarded:
  assumes "guarded p w0 w"
  shows "guarded p w0 (snd (terminalFailure en rid recording k le w))"
proof -
  obtain r1 w1 where u: "updateRecordingStatus en rid Failed
      (noExtras\<lparr>uploadAttempts' := Some MAX_ATTEMPTS, lastError' := le\<rparr>) w = (r1, w1)"
    by (cases "updateRecordingStatus en rid Failed
      (noExtras\<lparr>uploadAttempts' := Some MAX_ATTEMPTS, lastError' := le\<rparr>) w")
  from updateRecordingStatus_step [OF u] assms have "guarded p w0 w1"
    by (simp add: guarded_step)
  then show ?thesis
    using u by (cases r1) (simp_all add: terminalFailure_def saveRecordingToDb_world guarded_step)
qed

lemma uploadRecording_guarded:
  "guarded (case idb_get id' rid (recordings w) of Some r \<Rightarrow> \<not> falsy (s3Key r) | None \<Rightarrow> False)
     w (snd (uploadRecording en rid w))"
proof -
  let ?p = "case idb_get id' rid (recordings w) of Some r \<Rightarrow> \<not> falsy (s3Key r) | None \<Rightarrow> False"
  obtain r1 w1 where g: "getRecordingById en rid w = (r1, w1)"
    by (cases "getRecordingById en rid w")
  from getRecordingById_step [OF g] have g1: "guarded ?p w w1"
    by (simp add: guarded_step guarded_refl)
  show ?thesis
  proof (cases r1)
    case (Inl e)
    with g g1 show ?thesis by (simp add: uploadRecording_def)
  next
    case (Inr found)
    show ?thesis
    proof (cases found)
      case None
      with Inr g g1 show ?thesis by (simp add: uploadRecording_def)
    next
      case (Some recording)
      with Inr g getRecordingById_result [of en rid w]
      obtain r where r: "idb_get id' rid (recordings w) = Some r"
        and rec: "recording = hydrateRecording r"
        by (cases "idb_get id' rid (recordings w)") (auto split: option.splits)
      from r rec have "\<not> falsy (s3Key recording) \<longrightarrow> put_seen ?p w w1"
        by (simp add: put_seen_def)
      from uploadLoop_guarded [OF g1 this]
      have g2: "guarded ?p w (snd (uploadLoop en rid recording (uploadAttempts recording)
                     (uploadAttempts recording) (s3Key recording) None w1))" .
      from Inr Some g g1 g2 terminalFailure_guarded [OF g2] show ?thesis
        by (auto simp: uploadRecording_def split: prod.splits sum.splits loop_exit.splits)
    qed
  qed
qed

lemma steps_fold: "steps P w w' \<Longrightarrow> \<exists>evs. w' = fold step evs w"
  unfolding steps_def by blast

lemma committed_then_purged_after:
  assumes "v = fold step ys w" and "committed_then_purged rid v w'"
  shows "committed_then_purged rid w w'"
proof -
  from assms(2) obtain xs d st body where
    "w' = fold step (xs @ [Fetch (SaveRecording d) (Response st body),
                           Db (DeleteRecordingOp rid) None]) v" "ok st" "d_status d = Synced"
    unfolding committed_then_purged_def by blast
  with assms(1) have
    "w' = fold step ((ys @ xs) @ [Fetch (SaveRecording d) (Response st body),
                                  Db (DeleteRecordingOp rid) None]) w \<and> ok st \<and> d_status d = Synced"
    by simp
  then show ?thesis unfolding committed_then_purged_def by blast
qed

lemma tryBlock_purged:
  assumes "tryBlock en rid recording k w = (Inr x, k', w')"
  shows "committed_then_purged rid w w'"
  using assms
proof (cases rule: tryBlock_cases)
  case (purged w1 w2)
  from transferObject_steps [OF purged(1), of k 0] obtain ys where w1: "w1 = fold step ys w"
    using steps_fold by blast
  from saveRecordingToDb_ok [OF purged(2)] obtain st body where
    reply: "net en (now w1) = Response st body" "ok st" by blast
  from saveRecordingToDb_step [OF purged(2)] reply
  have w2: "w2 = step (Fetch (SaveRecording (dbData recording k' Synced None)) (Response st body)) w1"
    by simp
  from deleteRecording_result [OF purged(3)] deleteRecording_step [OF purged(3)]
  have w': "w' = step (Db (DeleteRecordingOp rid) None) w2" by simp
  from w1 w2 w' have
    "w' = fold step (ys @ [Fetch (SaveRecording (dbData recording k' Synced None)) (Response st body),
                           Db (DeleteRecordingOp rid) None]) w"
    by simp
  moreover have "d_status (dbData recording k' Synced None) = Synced"
    by (simp add: dbData_def)
  ultimately show ?thesis
    unfolding committed_then_purged_def using reply(2) by blast
qed simp_all

lemma iteration_purged:
  assumes "iteration en rid recording start a k w = (Inr (Inl (Return res)), w')"
    and "r_status res = Synced"
  shows "success res \<and> committed_then_purged rid w w'"
  using assms(1)
proof (cases rule: iteration_cases)
  case (synced x w1 k')
  have "\<exists>ys. w1 = fold step ys w"
    using updateRecordingStatus_step [OF synced(1)]
    by (cases "a > start")
      (auto simp: sleep_step intro: exI [of _ "[_]"] exI [of _ "[_, _]"])
  then obtain ys where "w1 = fold step ys w" by blast
  from committed_then_purged_after [OF this tryBlock_purged [OF synced(2)]] synced(3)
  show ?thesis by simp
next
  case (network x w1 err k' w2 y)
  with assms(2) show ?thesis by (auto split: sum.splits)
next
  case (other x w1 err k')
  then show ?thesis by (auto split: if_splits)
qed simp

lemma guarded_fold: "guarded p w v \<Longrightarrow> \<exists>ys. v = fold step ys w"
  unfolding guarded_def by blast

lemma uploadLoop_purged:
  assumes "guarded True w v"
    and "fst (uploadLoop en rid recording start a k le v) = Inr (Return res)"
    and "r_status res = Synced"
  shows "success res
         \<and> committed_then_purged rid w (snd (uploadLoop en rid recording start a k le v))"
proof -
  let ?Inv = "\<lambda>(a :: int) (k :: string option) (le :: string option) u. guarded True w u"
  let ?Post = "\<lambda>q :: (js_error + loop_exit) \<times> world.
      \<forall>res. fst q = Inr (Return res) \<and> r_status res = Synced \<longrightarrow>
        success res \<and> committed_then_purged rid w (snd q)"
  have "?Post (uploadLoop en rid recording start a k le v)"
  proof (rule uploadLoop_rule [where Inv = ?Inv and Post = ?Post])
    show "?Inv a k le v" by (rule assms(1))
  next
    fix a k le u x w'
    assume inv: "?Inv a k le u" and "a < MAX_ATTEMPTS"
      and it: "iteration en rid recording start a k u = (Inr (Inl x), w')"
    show "?Post (Inr x, w')"
    proof (intro allI impI)
      fix res assume "fst (Inr x, w') = Inr (Return res) \<and> r_status res = Synced"
      then have x: "x = Return res" and s: "r_status res = Synced" by simp_all
      from guarded_fold [OF inv] obtain ys where u: "u = fold step ys w" by blast
      from iteration_purged [OF it [unfolded x] s] committed_then_purged_after [OF u]
      show "success res \<and> committed_then_purged rid w (snd (Inr x, w'))" by simp
    qed
  next
    fix a k le u k' le' w'
    assume "?Inv a k le u" "a < MAX_ATTEMPTS"
      "iteration en rid recording start a k u = (Inr (Inr (k', le')), w')"
    then show "?Inv (a + 1) k' le' w'"
      using iteration_guarded [of en rid recording start a k u "Inr (Inr (k', le'))" w' True w]
      by (simp add: put_seen_def)
  qed simp_all
  with assms(2,3) show ?thesis by blast
qed

lemma terminalFailure_result:
  "fst (terminalFailure en rid recording k le w) = Inr res \<Longrightarrow> r_status res = Failed"
  by (auto simp: terminalFailure_def split: prod.splits sum.splits)

lemma uploadRecording_purged:
  assumes "fst (uploadRecording en rid w) = Inr res" and "r_status res = Synced"
    and "\<forall>r\<in>set (recordings w). status r \<noteq> Synced"
  shows "success res \<and> committed_then_purged rid w (snd (uploadRecording en rid w))"
proof -
  obtain r1 w1 where g: "getRecordingById en rid w = (r1, w1)"
    by (cases "getRecordingById en rid w")
  from getRecordingById_step [OF g] have g1: "guarded True w w1"
    by (simp add: guarded_step guarded_refl)
  show ?thesis
  proof (cases r1)
    case (Inl e)
    with g assms(1) show ?thesis by (simp add: uploadRecording_def)
  next
    case (Inr found)
    show ?thesis
    proof (cases found)
      case None
      with Inr g assms(1,2) show ?thesis by (auto simp: uploadRecording_def)
    next
      case (Some recording)
      with Inr g getRecordingById_result [of en rid w]
      obtain r where r: "idb_get id' rid (recordings w) = Some r"
        and rec: "recording = hydrateRecording r"
        by (cases "idb_get id' rid (recordings w)") (auto split: option.splits)
      from idb_get_SomeD [OF r] assms(3) rec have ns: "status recording \<noteq> Synced" by simp
      let ?loop = "uploadLoop en rid recording (uploadAttempts recording)
                     (uploadAttempts recording) (s3Key recording) None w1"
      show ?thesis
      proof (cases "uploadAttempts recording \<ge> MAX_ATTEMPTS")
        case True
        with Inr Some g ns assms(1,2) show ?thesis by (auto simp: uploadRecording_def)
      next
        case False
        obtain r2 w2 where l: "?loop = (r2, w2)" by (cases ?loop)
        show ?thesis
        proof (cases r2)
          case (Inl e)
          with Inr Some g ns False l assms(1) show ?thesis by (simp add: uploadRecording_def)
        next
          case r2: (Inr ex)
          show ?thesis
          proof (cases ex)
            case (Return res')
            with Inr Some g ns False l r2 assms(1) have eq: "res' = res" "snd (uploadRecording en rid w) = w2"
              by (simp_all add: uploadRecording_def)
            from l r2 Return eq have "fst ?loop = Inr (Return res)" by simp
            from uploadLoop_purged [OF g1 this assms(2)] l eq show ?thesis by simp
          next
            case (Break k le)
            with Inr Some g ns False l r2 assms(1)
            have "fst (terminalFailure en rid recording k le w2) = Inr res"
              by (simp add: uploadRecording_def)
            from terminalFailure_result [OF this] assms(2) show ?thesis by simp
          qed
        qed
      qed
    qed
  qed
qed

lemma recordings_step [simp]: "recordings (step e w) = recordings (apply_event e w)"
  by (simp add: step_def)

lemma idb_get_delete: "idb_get k i (idb_delete k i xs) = None"
  by (simp add: idb_get_def idb_delete_def find_None_iff)

lemma committed_then_purged_store:
  assumes "committed_then_purged rid w w'"
  shows "idb_get id' rid (recordings w') = None
         \<and> (\<exists>xs d st body.
               events_since w w' = xs @ [Fetch (SaveRecording d) (Response st body),
                                         Db (DeleteRecordingOp rid) None]
               \<and> ok st \<and> d_status d = Synced)"
proof -
  from assms obtain xs d st body where
    w': "w' = fold step (xs @ [Fetch (SaveRecording d) (Response st body),
                               Db (DeleteRecordingOp rid) None]) w"
    and ok: "ok st" "d_status d = Synced"
    unfolding committed_then_purged_def by blast
  from w' have "idb_get id' rid (recordings w') = None"
    by (simp add: idb_get_delete)
  moreover from w' have "events_since w w' = xs @ [Fetch (SaveRecording d) (Response st body),
                               Db (DeleteRecordingOp rid) None]"
    by (simp only: events_since_fold)
  ultimately show ?thesis using ok by blast
qed

section \<open>Back to local\<close>

lemma updated_id [simp]: "id' (updated r st x) = id' r"
  by (simp add: updated_def)

lemma update_event_get:
  assumes "idb_get id' i (recordings v) = Some r"
  shows "idb_get id' i (recordings (step (Db (UpdateRecordingStatusOp i st x) f) v)) =
           Some (case f of None \<Rightarrow> updated r st x | Some e \<Rightarrow> r)"
proof (cases f)
  case None
  from idb_get_SomeD [OF assms] have "id' (updated r st x) = i" by simp
  with None assms idb_get_put_same [of id' "updated r st x" "recordings v"] show ?thesis
    by simp
next
  case (Some e)
  with assms show ?thesis by simp
qed

lemma kept_after_update:
  assumes "updateRecordingStatus en i st x v = (y, w')"
    and "\<exists>r. idb_get id' i (recordings v) = Some r"
  shows "\<exists>r. idb_get id' i (recordings w') = Some r"
  using updateRecordingStatus_step [OF assms(1)] assms(2) update_event_get by auto

lemma kept_after_transfer:
  assumes "transferObject en rid recording k v = (r, k', w')"
    and "\<exists>r. idb_get id' rid (recordings v) = Some r"
  shows "\<exists>r. idb_get id' rid (recordings w') = Some r"
  using assms(1)
proof (cases rule: transferObject_cases)
  case skipped
  with assms(2) show ?thesis by simp
next
  case (url_failed e)
  with getPresignedUrl_step [OF url_failed(2)] assms(2) show ?thesis by simp
next
  case (put_failed u w1 e)
  with getPresignedUrl_step [OF put_failed(2)] putToS3_step [OF put_failed(3)] assms(2)
  show ?thesis by simp
next
  case (checkpoint_failed u w1 w2 e)
  from getPresignedUrl_step [OF checkpoint_failed(2)] putToS3_step [OF checkpoint_failed(3)] assms(2)
  have "\<exists>r. idb_get id' rid (recordings w2) = Some r" by simp
  with kept_after_update [OF checkpoint_failed(4)] show ?thesis by simp
next
  case (stored u w1 w2 x)
  from getPresignedUrl_step [OF stored(2)] putToS3_step [OF stored(3)] assms(2)
  have "\<exists>r. idb_get id' rid (recordings w2) = Some r" by simp
  with kept_after_update [OF stored(4)] show ?thesis by simp
qed

lemma kept_after_failed_try:
  assumes "tryBlock en rid recording k v = (Inl err, k', w')"
    and "\<exists>r. idb_get id' rid (recordings v) = Some r"
  shows "\<exists>r. idb_get id' rid (recordings w') = Some r"
  using assms(1)
proof (cases rule: tryBlock_cases)
  case (transfer_failed e)
  from kept_after_transfer [OF transfer_failed(1) assms(2)] show ?thesis .
next
  case (commit_failed w1 e)
  from kept_after_transfer [OF commit_failed(1) assms(2)]
    saveRecordingToDb_step [OF commit_failed(2)]
  show ?thesis by simp
next
  case (purge_failed w1 w2 e)
  from kept_after_transfer [OF purge_failed(1) assms(2)]
    saveRecordingToDb_step [OF purge_failed(2)]
  have "\<exists>r. idb_get id' rid (recordings w2) = Some r" by simp
  with deleteRecording_step [OF purge_failed(3)] deleteRecording_result [OF purge_failed(3)]
  show ?thesis by simp
next
  case (purged w1 w2)
  then show ?thesis by simp
qed

lemma kept_after_attempt:
  assumes "updateRecordingStatus en rid Uploading (noExtras\<lparr>uploadAttempts' := Some (a + 1)\<rparr>)
             (if a > start then sleep (backoffDelay (a - 1) (random en (now v))) v else v) = (x, w1)"
    and "\<exists>r. idb_get id' rid (recordings v) = Some r"
  shows "\<exists>r. idb_get id' rid (recordings w1) = Some r"
proof -
  from assms(2) have "\<exists>r. idb_get id' rid
      (recordings (if a > start then sleep (backoffDelay (a - 1) (random en (now v))) v else v))
      = Some r"
    by (simp add: sleep_step)
  with kept_after_update [OF assms(1)] show ?thesis by simp
qed

lemma iteration_reverted:
  assumes "iteration en rid recording start a k v = (q, w')"
    and "\<exists>r. idb_get id' rid (recordings v) = Some r"
  shows "(\<forall>res. q = Inr (Inl (Return res)) \<and> r_status res = Local \<longrightarrow>
            \<not> success res
            \<and> (\<exists>u r. w' = step (Db (UpdateRecordingStatusOp rid Local
                                      (noExtras\<lparr>uploadAttempts' := Some start\<rparr>)) None) u
                     \<and> idb_get id' rid (recordings u) = Some r))
         \<and> (\<forall>k' le'. q = Inr (Inr (k', le')) \<longrightarrow> (\<exists>r. idb_get id' rid (recordings w') = Some r))"
  using assms(1)
proof (cases rule: iteration_cases)
  case (fault e)
  then show ?thesis by simp
next
  case (synced x w1 k')
  then show ?thesis by simp
next
  case (network x w1 err k' w2 y)
  from kept_after_failed_try [OF network(2) kept_after_attempt [OF network(1) assms(2)]]
  obtain r where r: "idb_get id' rid (recordings w2) = Some r" by blast
  show ?thesis
  proof (cases y)
    case (Inl e)
    with network(5) show ?thesis by simp
  next
    case (Inr z)
    with updateRecordingStatus_result [OF network(4)] updateRecordingStatus_step [OF network(4)]
    have "w' = step (Db (UpdateRecordingStatusOp rid Local
                          (noExtras\<lparr>uploadAttempts' := Some start\<rparr>)) None) w2"
      by simp
    with r Inr network(5) show ?thesis by auto
  qed
next
  case (other x w1 err k')
  from kept_after_failed_try [OF other(2) kept_after_attempt [OF other(1) assms(2)]] other(4)
  show ?thesis by (auto split: if_splits)
qed

lemma uploadLoop_reverted:
  assumes "\<exists>r. idb_get id' rid (recordings v) = Some r"
    and "fst (uploadLoop en rid recording start a k le v) = Inr (Return res)"
    and "r_status res = Local"
  shows "\<not> success res
         \<and> (\<exists>u r. snd (uploadLoop en rid recording start a k le v) =
                     step (Db (UpdateRecordingStatusOp rid Local
                                 (noExtras\<lparr>uploadAttempts' := Some start\<rparr>)) None) u
                   \<and> idb_get id' rid (recordings u) = Some r)"
proof -
  let ?Inv = "\<lambda>(a :: int) (k :: string option) (le :: string option) u.
                \<exists>r. idb_get id' rid (recordings u) = Some r"
  let ?Post = "\<lambda>q :: (js_error + loop_exit) \<times> world.
      \<forall>res. fst q = Inr (Return res) \<and> r_status res = Local \<longrightarrow>
        \<not> success res
        \<and> (\<exists>u r. snd q = step (Db (UpdateRecordingStatusOp rid Local
                                     (noExtras\<lparr>uploadAttempts' := Some start\<rparr>)) None) u
                  \<and> idb_get id' rid (recordings u) = Some r)"
  have "?Post (uploadLoop en rid recording start a k le v)"
  proof (rule uploadLoop_rule [where Inv = ?Inv and Post = ?Post])
    show "?Inv a k le v" by (rule assms(1))
  next
    fix a k le u x w'
    assume "?Inv a k le u" "a < MAX_ATTEMPTS"
      "iteration en rid recording start a k u = (Inr (Inl x), w')"
    then show "?Post (Inr x, w')"
      using iteration_reverted [of en rid recording start a k u "Inr (Inl x)" w'] by auto
  next
    fix a k le u k' le' w'
    assume "?Inv a k le u" "a < MAX_ATTEMPTS"
      "iteration en rid recording start a k u = (Inr (Inr (k', le')), w')"
    then show "?Inv (a + 1) k' le' w'"
      using iteration_reverted [of en rid recording start a k u "Inr (Inr (k', le'))" w'] by simp
  qed simp_all
  with assms(2,3) show ?thesis by blast
qed

lemma uploadRecording_reverted:
  assumes "uploadRecording en rid w = (Inr res, w')" and "r_status res = Local"
  shows "\<not> success res
         \<and> (\<exists>r0 u r. idb_get id' rid (recordings w) = Some r0
               \<and> w' = step (Db (UpdateRecordingStatusOp rid Local
                                 (noExtras\<lparr>uploadAttempts' := Some (uploadAttempts r0)\<rparr>)) None) u
               \<and> idb_get id' rid (recordings u) = Some r)"
proof -
  obtain r1 w1 where g: "getRecordingById en rid w = (r1, w1)"
    by (cases "getRecordingById en rid w")
  show ?thesis
  proof (cases r1)
    case (Inl e)
    with g assms(1) show ?thesis by (simp add: uploadRecording_def)
  next
    case (Inr found)
    show ?thesis
    proof (cases found)
      case None
      with Inr g assms show ?thesis by (auto simp: uploadRecording_def)
    next
      case (Some recording)
      with Inr g getRecordingById_result [of en rid w]
      obtain r0 where r0: "idb_get id' rid (recordings w) = Some r0"
        and rec: "recording = hydrateRecording r0"
        by (cases "idb_get id' rid (recordings w)") (auto split: option.splits)
      from getRecordingById_step [OF g] r0
      have kept: "\<exists>r. idb_get id' rid (recordings w1) = Some r" by simp
      let ?loop = "uploadLoop en rid recording (uploadAttempts recording)
                     (uploadAttempts recording) (s3Key recording) None w1"
      obtain r2 w2 where l: "?loop = (r2, w2)" by (cases ?loop)
      from Inr Some g assms have run:
        "status recording \<noteq> Synced" "\<not> uploadAttempts recording \<ge> MAX_ATTEMPTS"
        by (auto simp: uploadRecording_def split: if_splits)
      show ?thesis
      proof (cases r2)
        case (Inl e)
        with Inr Some g run l assms(1) show ?thesis by (simp add: uploadRecording_def)
      next
        case r2: (Inr ex)
        show ?thesis
        proof (cases ex)
          case (Return res')
          with Inr Some g run l r2 assms(1) have eq: "res' = res" "w' = w2"
            by (simp_all add: uploadRecording_def)
          from l r2 Return eq have "fst ?loop = Inr (Return res)" by simp
          from uploadLoop_reverted [OF kept this assms(2)] l eq r0 rec show ?thesis
            by auto
        next
          case (Break k le)
          with Inr Some g run l r2 assms(1)
          have "fst (terminalFailure en rid recording k le w2) = Inr res"
            by (simp add: uploadRecording_def)
          from terminalFailure_result [OF this] assms(2) show ?thesis by simp
        qed
      qed
    qed
  qed
qed

lemma updateRecordingStatus_run:
  "updateRecordingStatus en i st x w =
     (case dbFault en (now w) of
        Some e \<Rightarrow> Inl e
      | None \<Rightarrow> Inr (map_option (\<lambda>r. hydrateRecording (updated r st x)) (idb_get id' i (recordings w))),
      step (Db (UpdateRecordingStatusOp i st x) (dbFault en (now w))) w)"
  by (auto simp: updateRecordingStatus_def step_def emit_def split: option.splits)

section \<open>The sweep of the pending deletes\<close>

lemma emit_fetch: "emit (Fetch req r) w = step (Fetch req r) w"
  by (simp add: step_def)

lemma deleteRecordingFromServer_run:
  "deleteRecordingFromServer en k i w =
     (case net en (now w) of Rejected err \<Rightarrow> Inl err | Response st body \<Rightarrow> Inr (ok st),
      step (Fetch (DeleteRecordingReq k i) (net en (now w))) w)"
  by (simp add: deleteRecordingFromServer_def fetch_def emit_fetch split: fetch_reply.splits)

lemma retryEach_fold: "retryEach en pending w = fold step (sweep_events en (now w) pending) w"
proof (induction pending arbitrary: w)
  case Nil
  show ?case by simp
next
  case (Cons entry pending)
  show ?case
    by (cases "net en (now w)")
      (simp_all add: deleteRecordingFromServer_run removePendingDelete_world Cons.IH)
qed

lemma sweep_events_shape:
  "e \<in> set (sweep_events en t pending) \<Longrightarrow>
     (\<exists>x\<in>set pending. \<exists>r. e = Fetch (DeleteRecordingReq (pd_s3Key x) (pd_id x)) r)
     \<or> (\<exists>x\<in>set pending. \<exists>n. e = Db (RemovePendingDeleteOp (pd_id x)) (dbFault en n))"
  by (induction pending arbitrary: t) (auto split: if_splits)

lemma sweep_events_attempted:
  "x \<in> set pending \<Longrightarrow>
     \<exists>r. Fetch (DeleteRecordingReq (pd_s3Key x) (pd_id x)) r \<in> set (sweep_events en t pending)"
  by (induction pending arbitrary: t) (auto split: if_splits)

lemma sweep_events_removed:
  "Db (RemovePendingDeleteOp i) f \<in> set (sweep_events en t pending) \<Longrightarrow>
     \<exists>k r. Fetch (DeleteRecordingReq k i) r \<in> set (sweep_events en t pending) \<and> replied_ok r"
proof (induction pending arbitrary: t)
  case Nil
  then show ?case by simp
next
  case (Cons entry pending)
  show ?case
  proof (cases "replied_ok (net en t)")
    case True
    with Cons.prems Cons.IH [of "Suc (Suc t)"] show ?thesis by auto
  next
    case False
    with Cons.prems Cons.IH [of "Suc t"] show ?thesis by auto
  qed
qed

lemma sweep_events_deleted:
  "Fetch (DeleteRecordingReq k i) r \<in> set (sweep_events en t pending) \<Longrightarrow> replied_ok r \<Longrightarrow>
     \<exists>f. Db (RemovePendingDeleteOp i) f \<in> set (sweep_events en t pending)"
proof (induction pending arbitrary: t)
  case Nil
  then show ?case by simp
next
  case (Cons entry pending)
  show ?case
  proof (cases "replied_ok (net en t)")
    case True
    with Cons.prems Cons.IH [of "Suc (Suc t)"] show ?thesis by auto
  next
    case False
    with Cons.prems Cons.IH [of "Suc t"] show ?thesis by auto
  qed
qed

lemma sweep_events_once:
  assumes "distinct (map pd_id pending)"
    and "Fetch (DeleteRecordingReq k i) r \<in> set (sweep_events en t pending)"
    and "Fetch (DeleteRecordingReq k' i) r' \<in> set (sweep_events en t pending)"
  shows "k = k' \<and> r = r'"
  using assms
proof (induction pending arbitrary: t)
  case Nil
  then show ?case by simp
next
  case (Cons entry pending)
  have other: "pd_id entry \<noteq> j"
    if "Fetch (DeleteRecordingReq k'' j) r'' \<in> set (sweep_events en t' pending)" for k'' j r'' t'
    using sweep_events_shape [OF that] Cons.prems(1) by auto
  from Cons.prems(1) have d: "distinct (map pd_id pending)" by simp
  show ?case
  proof (cases "replied_ok (net en t)")
    case True
    with Cons.prems(2,3) Cons.IH [OF d, of "Suc (Suc t)"] other show ?thesis by auto
  next
    case False
    with Cons.prems(2,3) Cons.IH [OF d, of "Suc t"] other show ?thesis by auto
  qed
qed

lemma sweep_store:
  assumes "\<forall>e\<in>set evs. (\<exists>req r. e = Fetch req r) \<or> (\<exists>i f. e = Db (RemovePendingDeleteOp i) f)"
  shows "pendingDeletes (fold step evs w) =
           filter (\<lambda>x. Db (RemovePendingDeleteOp (pd_id x)) None \<notin> set evs) (pendingDeletes w)"
  using assms
proof (induction evs arbitrary: w)
  case Nil
  show ?case by simp
next
  case (Cons e evs)
  from Cons.prems have rest: "\<forall>e\<in>set evs. (\<exists>req r. e = Fetch req r) \<or> (\<exists>i f. e = Db (RemovePendingDeleteOp i) f)"
    by simp
  from Cons.prems consider (fetch) req r where "e = Fetch req r"
    | (removed) i where "e = Db (RemovePendingDeleteOp i) None"
    | (failed) i err where "e = Db (RemovePendingDeleteOp i) (Some err)"
    by (cases e) (auto, metis option.exhaust)
  then show ?case
  proof cases
    case fetch
    with Cons.IH [OF rest, of "step e w"] show ?thesis by (simp add: step_def)
  next
    case removed
    with Cons.IH [OF rest, of "step e w"] show ?thesis
      by (auto simp: step_def idb_delete_def intro: filter_cong)
  next
    case failed
    with Cons.IH [OF rest, of "step e w"] show ?thesis by (simp add: step_def)
  qed
qed

section \<open>The tasks step by step and as functions\<close>

declare uploadLoop_proc.simps [simp del]

lemma run_await [simp]: "run (await op) w = op w"
  by (simp add: await_def)

lemma run_perform [simp]: "run (perform op) w = ((), op w)"
  by (simp add: perform_def)

lemma run_andThen: "run (andThen p f) w = (case run p w of (a, w') \<Rightarrow> run (f a) w')"
  by (induction p arbitrary: w) simp_all

lemma run_sync [simp]: "run (sync f) w = run (f w) w"
  by (cases "f w") (simp_all add: sync_def)

lemma transferObject_proc_run:
  "run (transferObject_proc en rid recording k) w =
     (case transferObject en rid recording k w of (r, k', w') \<Rightarrow> ((r, k'), w'))"
  by (simp add: transferObject_proc_def transferObject_def run_andThen
           split: prod.splits sum.splits)

lemma tryBlock_proc_run:
  "run (tryBlock_proc en rid recording k) w =
     (case tryBlock en rid recording k w of (r, k', w') \<Rightarrow> ((r, k'), w'))"
  by (simp add: tryBlock_proc_def tryBlock_def run_andThen transferObject_proc_run
           split: prod.splits sum.splits)

lemma iteration_proc_run:
  "run (iteration_proc en rid recording start a k) w = iteration en rid recording start a k w"
  by (simp add: iteration_proc_def iteration_def run_andThen tryBlock_proc_run
           split: prod.splits sum.splits)

lemma uploadLoop_proc_run:
  "run (uploadLoop_proc en rid recording start a k le) w = uploadLoop en rid recording start a k le w"
proof (induction en rid recording start a k le arbitrary: w rule: uploadLoop_proc.induct)
  case (1 en rid recording startAttempt attempt k le)
  show ?case
  proof (cases "attempt < MAX_ATTEMPTS")
    case False
    then show ?thesis
      by (subst uploadLoop_proc.simps, subst uploadLoop.simps) simp
  next
    case True
    obtain r w' where it: "iteration en rid recording startAttempt attempt k w = (r, w')"
      by (cases "iteration en rid recording startAttempt attempt k w")
    show ?thesis
    proof (cases r)
      case (Inl e)
      with True it show ?thesis
        by (subst uploadLoop_proc.simps, subst uploadLoop.simps)
           (simp add: run_andThen iteration_proc_run)
    next
      case (Inr x)
      show ?thesis
      proof (cases x)
        case (Inl y)
        with True it Inr show ?thesis
          by (subst uploadLoop_proc.simps, subst uploadLoop.simps)
             (simp add: run_andThen iteration_proc_run)
      next
        case (Inr kl)
        obtain k' le' where kl: "kl = (k', le')" by (cases kl)
        from True have "\<not> \<not> attempt < MAX_ATTEMPTS" by simp
        note IH = 1 [OF this]
        from True it \<open>r = Inr x\<close> Inr kl show ?thesis
          by (subst uploadLoop_proc.simps, subst uploadLoop.simps)
             (simp add: run_andThen iteration_proc_run IH)
      qed
    qed
  qed
qed

lemma terminalFailure_proc_run:
  "run (terminalFailure_proc en rid recording k le) w = terminalFailure en rid recording k le w"
  by (simp add: terminalFailure_proc_def terminalFailure_def run_andThen
           split: prod.splits sum.splits)

lemma uploadRecording_proc_run:
  "run (uploadRecording_proc en rid) w = uploadRecording en rid w"
  by (simp add: uploadRecording_proc_def uploadRecording_def run_andThen uploadLoop_proc_run
                terminalFailure_proc_run
           split: prod.splits sum.splits option.splits loop_exit.splits)

lemma uploadEach_proc_run:
  "run (uploadEach_proc en pending results) w = uploadEach en pending results w"
  by (induction pending arbitrary: results w)
     (simp_all add: run_andThen uploadRecording_proc_run split: prod.splits sum.splits)

lemma uploadAllPending_proc_run:
  "run (uploadAllPending_proc en) w = uploadAllPending en w"
  by (simp add: uploadAllPending_proc_def uploadAllPending_def run_andThen uploadEach_proc_run
           split: prod.splits sum.splits)

lemma registerSync_proc_run [simp]: "run (registerSync_proc en) w = ((), registerSync en w)"
  by (simp add: registerSync_proc_def registerSync_def)

lemma handleUpload_proc_run: "run (handleUpload_proc en rid) w = handleUpload en rid w"
  by (simp add: handleUpload_proc_def handleUpload_def run_andThen uploadRecording_proc_run
                afterUpload_def
           split: prod.splits sum.splits bool.splits)

lemma handleDelete_proc_run: "run (handleDelete_proc en rid k) w = handleDelete en rid k w"
  by (simp add: handleDelete_proc_def handleDelete_def run_andThen
           split: prod.splits sum.splits)

lemma retryEach_proc_run: "run (retryEach_proc en pending) w = ((), retryEach en pending w)"
  by (induction pending arbitrary: w)
     (simp_all add: run_andThen split: prod.splits sum.splits)

lemma handleRetryDeletes_proc_run: "run (handleRetryDeletes_proc en) w = handleRetryDeletes en w"
  by (simp add: handleRetryDeletes_proc_def handleRetryDeletes_def run_andThen retryEach_proc_run
           split: prod.splits sum.splits)

lemma broadcastEach_proc_run: "run (broadcastEach_proc results) w = ((), fold broadcastStatus results w)"
  by (induction results arbitrary: w) (simp_all add: run_andThen)

lemma handleRetryAll_proc_run: "run (handleRetryAll_proc en) w = handleRetryAll en w"
  by (simp add: handleRetryAll_proc_def handleRetryAll_def run_andThen handleRetryDeletes_proc_run
                uploadAllPending_proc_run broadcastEach_proc_run
           split: prod.splits sum.splits)

section \<open>The invariant of the event loop\<close>

lemma lane_spec_snoc: "lane_spec (ts @ [t]) w = snd (t (lane_spec ts w))"
  by (simp add: lane_spec_def)

lemma job_of_run: "run (job_of en m) w = task_of en m w"
  by (cases m)
     (simp_all add: job_of_def task_of_def handleUpload_proc_run handleDelete_proc_run
        handleRetryAll_proc_run)

lemma onMessage'_job: "onMessage' en m s = enqueue' (job_of en m) s"
  by (cases m) (simp_all add: job_of_def)

lemma takeWhile_upt:
  assumes "1 \<le> c" and "c < Suc n"
  shows "takeWhile (\<lambda>x. x \<noteq> c) [1..<Suc n] = [1..<c]"
proof -
  from assms have "[1..<Suc n] = [1..<c] @ c # [Suc c..<Suc n]"
    by (metis le_add_diff_inverse less_imp_le_nat upt_add_eq_append upt_conv_Cons)
  then have "takeWhile (\<lambda>x. x \<noteq> c) [1..<Suc n] =
               takeWhile (\<lambda>x. x \<noteq> c) ([1..<c] @ c # [Suc c..<Suc n])"
    by (simp only:)
  also have "\<dots> = [1..<c] @ takeWhile (\<lambda>x. x \<noteq> c) (c # [Suc c..<Suc n])"
    by (rule takeWhile_append2) simp
  finally show ?thesis by simp
qed

lemma lane_inv_boot: "lane_inv en w [] (boot w)"
  by (simp add: lane_inv_def boot_def lane_spec_def)

lemma lane_inv_message:
  assumes "lane_inv en w0 ms s"
  shows "lane_inv en w0 (ms @ [m]) (onMessage' en m s)"
proof -
  let ?n = "length ms"
  from assms have len: "length (promises s) = Suc ?n" and q: "uploadQueue s = ?n"
    by (simp_all add: lane_inv_def)
  from assms consider
    (idle) "running s = []" "reactions s = []" "\<forall>d\<le>?n. promises s ! d \<noteq> None"
      "mem s = lane_spec (map (task_of en) ms) w0"
      "fold lane_step (history s) (Some ([], [], None)) = Some ([1..<Suc ?n], [1..<Suc ?n], None)"
  | (busy) c p where "1 \<le> c" "c \<le> ?n" "running s = [(c, p)]"
      "snd (run p (mem s)) = lane_spec (map (task_of en) (take c ms)) w0"
      "reactions s =
         map (\<lambda>j. (j, \<lambda>_. job_of en (ms ! j), \<lambda>_. job_of en (ms ! j), Suc j)) [c..<?n]"
      "\<forall>d<c. promises s ! d \<noteq> None" "\<forall>d. c \<le> d \<and> d \<le> ?n \<longrightarrow> promises s ! d = None"
      "fold lane_step (history s) (Some ([], [], None)) = Some ([1..<Suc ?n], [1..<c], Some c)"
    unfolding lane_inv_def by blast
  then show ?thesis
  proof cases
    case idle
    from idle(3) obtain r where r: "promises s ! ?n = Some r" by auto
    have s': "onMessage' en m s =
        s\<lparr> promises := promises s @ [None],
           history := history s @ [Submitted (Suc ?n), Started (Suc ?n)],
           running := [(Suc ?n, job_of en m)],
           uploadQueue := Suc ?n \<rparr>"
      using len q r idle(1)
      by (cases r) (simp_all add: onMessage'_job enqueue'_def then_promise_def start_job_def Let_def)
    have tw: "takeWhile (\<lambda>x. x \<noteq> Suc ?n) [1..<Suc (Suc ?n)] = [1..<Suc ?n]"
      by (rule takeWhile_upt) simp_all
    have mon: "fold lane_step (history (onMessage' en m s)) (Some ([], [], None)) =
                 Some ([1..<Suc (Suc ?n)], [1..<Suc ?n], Some (Suc ?n))"
      using idle(5) tw by (simp add: s')
    have settled: "\<forall>d<Suc ?n. promises (onMessage' en m s) ! d \<noteq> None"
      using idle(3) len by (simp add: s' nth_append)
    have pending: "\<forall>d. Suc ?n \<le> d \<and> d \<le> Suc ?n \<longrightarrow> promises (onMessage' en m s) ! d = None"
      using len by (auto simp: s' nth_append)
    have world: "snd (run (job_of en m) (mem (onMessage' en m s))) =
                   lane_spec (map (task_of en) (take (Suc ?n) (ms @ [m]))) w0"
      using idle(4) by (simp add: s' job_of_run lane_spec_snoc)
    show ?thesis
      unfolding lane_inv_def
    proof (intro conjI disjI2 exI [of _ "Suc ?n"] exI [of _ "job_of en m"])
      show "running (onMessage' en m s) = [(Suc ?n, job_of en m)]" by (simp add: s')
      show "reactions (onMessage' en m s) =
              map (\<lambda>j. (j, \<lambda>_. job_of en ((ms @ [m]) ! j), \<lambda>_. job_of en ((ms @ [m]) ! j), Suc j))
                [Suc ?n..<length (ms @ [m])]"
        using idle(2) by (simp add: s')
    qed (use len mon settled pending world in \<open>simp_all add: s'\<close>)
  next
    case (busy c p)
    from busy(2,7) have r: "promises s ! ?n = None" by simp
    have s': "onMessage' en m s =
        s\<lparr> promises := promises s @ [None],
           history := history s @ [Submitted (Suc ?n)],
           reactions := reactions s @ [(?n, \<lambda>_. job_of en m, \<lambda>_. job_of en m, Suc ?n)],
           uploadQueue := Suc ?n \<rparr>"
      using len q r
      by (simp add: onMessage'_job enqueue'_def then_promise_def Let_def)
    have mon: "fold lane_step (history (onMessage' en m s)) (Some ([], [], None)) =
                 Some ([1..<Suc (Suc ?n)], [1..<c], Some c)"
      using busy(8) by (simp add: s')
    have settled: "\<forall>d<c. promises (onMessage' en m s) ! d \<noteq> None"
      using busy(2,6) len by (simp add: s' nth_append)
    have pending: "\<forall>d. c \<le> d \<and> d \<le> Suc ?n \<longrightarrow> promises (onMessage' en m s) ! d = None"
      using busy(7) len by (auto simp: s' nth_append)
    have world: "snd (run p (mem (onMessage' en m s))) =
                   lane_spec (map (task_of en) (take c (ms @ [m]))) w0"
      using busy(2,4) by (simp add: s')
    have chain: "reactions (onMessage' en m s) =
              map (\<lambda>j. (j, \<lambda>_. job_of en ((ms @ [m]) ! j), \<lambda>_. job_of en ((ms @ [m]) ! j), Suc j))
                [c..<length (ms @ [m])]"
      using busy(2,5) by (simp add: s' nth_append)
    show ?thesis
      unfolding lane_inv_def
    proof (intro conjI disjI2 exI [of _ c] exI [of _ p])
      show "running (onMessage' en m s) = [(c, p)]" using busy(3) by (simp add: s')
    qed (use len busy(1,2) mon settled pending world chain in \<open>simp_all add: s'\<close>)
  qed
qed

lemma lane_inv_resume:
  assumes "lane_inv en w0 ms s"
  shows "lane_inv en w0 ms (resume d s)"
proof -
  let ?n = "length ms"
  let ?f = "\<lambda>j. (j, \<lambda>_ :: unit. job_of en (ms ! j), \<lambda>_ :: js_error. job_of en (ms ! j), Suc j)"
  from assms have len: "length (promises s) = Suc ?n" and q: "uploadQueue s = ?n"
    by (simp_all add: lane_inv_def)
  from assms consider
    (idle) "running s = []"
  | (busy) c p where "1 \<le> c" "c \<le> ?n" "running s = [(c, p)]"
      "snd (run p (mem s)) = lane_spec (map (task_of en) (take c ms)) w0"
      "reactions s = map ?f [c..<?n]"
      "\<forall>d<c. promises s ! d \<noteq> None" "\<forall>d. c \<le> d \<and> d \<le> ?n \<longrightarrow> promises s ! d = None"
      "fold lane_step (history s) (Some ([], [], None)) = Some ([1..<Suc ?n], [1..<c], Some c)"
    unfolding lane_inv_def by blast
  then show ?thesis
  proof cases
    case idle
    then have "resume d s = s" by (simp add: resume_def)
    with assms show ?thesis by simp
  next
    case (busy c p)
    show ?thesis
    proof (cases "d = c")
      case False
      with busy(3) have "resume d s = s" by (simp add: resume_def)
      with assms show ?thesis by simp
    next
      case True
      show ?thesis
      proof (cases p)
        case (Await g k)
        have s': "resume d s =
            s\<lparr> mem := g (mem s), running := [(c, k (mem s))],
               history := history s @ [Stepped c] \<rparr>"
          using True busy(3) Await by (simp add: resume_def)
        have world: "snd (run (k (mem s)) (g (mem s))) =
                       lane_spec (map (task_of en) (take c ms)) w0"
          using busy(4) Await by simp
        show ?thesis
          unfolding lane_inv_def
        proof (intro conjI disjI2 exI [of _ c] exI [of _ "k (mem s)"])
          show "running (resume d s) = [(c, k (mem s))]" by (simp add: s')
        qed (use len q busy world in \<open>simp_all add: s'\<close>)
      next
        case (Done r)
        have mem: "mem s = lane_spec (map (task_of en) (take c ms)) w0"
          using busy(4) Done by simp
        have cl: "c < length (promises s)" using busy(2) len by simp
        show ?thesis
        proof (cases "c < ?n")
          case True
          then have upt: "[c..<?n] = c # [Suc c..<?n]" by (simp add: upt_conv_Cons)
          have due: "filter (\<lambda>(p, onFulfilled, onRejected, d'). p = c) (reactions s) = [?f c]"
            unfolding busy(5) upt by (simp add: filter_empty_conv)
          have rest: "filter (\<lambda>(p, onFulfilled, onRejected, d'). p \<noteq> c) (reactions s) =
                        map ?f [Suc c..<?n]"
            unfolding busy(5) upt by (simp add: filter_id_conv)
          have s': "resume d s =
              s\<lparr> promises := (promises s)[c := Some r],
                 running := [(Suc c, job_of en (ms ! c))],
                 reactions := map ?f [Suc c..<?n],
                 history := history s @ [Finished c r, Started (Suc c)] \<rparr>"
            using \<open>d = c\<close> busy(3) Done
            by (cases r) (simp_all add: resume_def settle_def due rest start_job_def)
          have tw: "takeWhile (\<lambda>x. x \<noteq> Suc c) [1..<Suc ?n] = [1..<Suc c]"
            using True by (intro takeWhile_upt) simp_all
          have mon: "fold lane_step (history (resume d s)) (Some ([], [], None)) =
                       Some ([1..<Suc ?n], [1..<Suc c], Some (Suc c))"
            using busy(1,8) True tw by (auto simp: s')
          have settled: "\<forall>i<Suc c. promises (resume d s) ! i \<noteq> None"
            using busy(6) cl by (auto simp: s' nth_list_update less_Suc_eq)
          have pending: "\<forall>i. Suc c \<le> i \<and> i \<le> ?n \<longrightarrow> promises (resume d s) ! i = None"
            using busy(7) len by (simp add: s' nth_list_update)
          have world: "snd (run (job_of en (ms ! c)) (mem (resume d s))) =
                         lane_spec (map (task_of en) (take (Suc c) ms)) w0"
            using True mem by (simp add: s' job_of_run take_Suc_conv_app_nth lane_spec_snoc)
          show ?thesis
            unfolding lane_inv_def
          proof (intro conjI disjI2 exI [of _ "Suc c"] exI [of _ "job_of en (ms ! c)"])
            show "running (resume d s) = [(Suc c, job_of en (ms ! c))]" by (simp add: s')
            show "reactions (resume d s) = map ?f [Suc c..<?n]" by (simp add: s')
          qed (use len q True mon settled pending world in \<open>simp_all add: s'\<close>)
        next
          case False
          with busy(2) have c: "c = ?n" by simp
          have s': "resume d s =
              s\<lparr> promises := (promises s)[c := Some r], running := [], reactions := [],
                 history := history s @ [Finished c r] \<rparr>"
            using \<open>d = c\<close> busy(3,5) Done c by (simp add: resume_def settle_def)
          have mon: "fold lane_step (history (resume d s)) (Some ([], [], None)) =
                       Some ([1..<Suc ?n], [1..<Suc ?n], None)"
            using busy(1,8) c by (simp add: s')
          have settled: "\<forall>i\<le>?n. promises (resume d s) ! i \<noteq> None"
            using busy(6) cl c by (auto simp: s' nth_list_update le_less)
          have world: "mem (resume d s) = lane_spec (map (task_of en) ms) w0"
            using mem c by (simp add: s')
          show ?thesis
            unfolding lane_inv_def
            by (intro conjI disjI1) (use len q mon settled world in \<open>simp_all add: s'\<close>)
        qed
      qed
    qed
  qed
qed

lemma lane_inv_exec:
  "lane_inv en w0 ms s \<Longrightarrow> lane_inv en w0 (ms @ messages acts) (fold (exec_action en) acts s)"
proof (induction acts arbitrary: ms s)
  case Nil
  then show ?case by simp
next
  case (Cons a acts)
  show ?case
  proof (cases a)
    case (Message m)
    from Cons.IH [OF lane_inv_message [OF Cons.prems, of m]] Message show ?thesis by simp
  next
    case (Resume d)
    from Cons.IH [OF lane_inv_resume [OF Cons.prems, of d]] Resume show ?thesis by simp
  qed
qed

lemma lane_inv_reachable:
  "lane_inv en w (messages acts) (fold (exec_action en) acts (boot w))"
  using lane_inv_exec [OF lane_inv_boot, of en w acts] by simp

lemma submitted_ids_set: "set (submitted_ids h) = {d. Submitted d \<in> set h}"
  by (induction h rule: submitted_ids.induct) auto

lemma fold_lane_step_None [simp]: "fold lane_step h None = None"
  by (induction h) simp_all

lemma lane_step_facts:
  assumes "fold lane_step h (Some (sub0, fin0, cur0)) = Some (sub, fin, cur)"
  shows "sub = sub0 @ submitted_ids h
         \<and> set fin \<union> set_option cur = set fin0 \<union> set_option cur0 \<union> {d. Started d \<in> set h}
         \<and> set fin = set fin0 \<union> {d. \<exists>r. Finished d r \<in> set h}"
  using assms
proof (induction h arbitrary: sub0 fin0 cur0)
  case Nil
  then show ?case by simp
next
  case (Cons e h)
  obtain sub1 fin1 cur1 where st: "lane_step e (Some (sub0, fin0, cur0)) = Some (sub1, fin1, cur1)"
    using Cons.prems by (cases "lane_step e (Some (sub0, fin0, cur0))") auto
  with Cons.prems have "fold lane_step h (Some (sub1, fin1, cur1)) = Some (sub, fin, cur)"
    by simp
  note IH = Cons.IH [OF this]
  show ?case
  proof (cases e)
    case (Submitted d)
    with st IH show ?thesis by auto
  next
    case (Started d)
    with st IH show ?thesis by (auto split: if_splits)
  next
    case (Stepped d)
    with st IH show ?thesis by (auto split: if_splits)
  next
    case (Finished d r)
    with st IH show ?thesis by (auto split: if_splits)
  qed
qed

section \<open>Saving and reading back\<close>

text \<open>
  C9 (as amended). A recording that is saved and read back, by \<open>getRecordingById\<close> or among
  the result of \<open>getAllRecordings\<close>, has the bytes and every other field of the original;
  its content type is the original's when that is not empty, and \<open>audio/webm\<close> when the
  original's is the empty string.
\<close>

theorem saveRecording_read_back:
  assumes "dbFault en (now w) = None" and "dbFault en (Suc (now w)) = None"
  shows "fst (getRecordingById en (id' r) (snd (saveRecording en r w))) =
           Inr (Some (r\<lparr> payload := (blob r)\<lparr> type' := or_else (type' (blob r)) ''audio/webm'' \<rparr> \<rparr>))
         \<and> (\<exists>rs. fst (getAllRecordings en (snd (saveRecording en r w))) = Inr rs
                \<and> r\<lparr> payload := (blob r)\<lparr> type' := or_else (type' (blob r)) ''audio/webm'' \<rparr> \<rparr>
                    \<in> set rs)
         \<and> (type' (blob r) \<noteq> [] \<longrightarrow>
               r\<lparr> payload := (blob r)\<lparr> type' := or_else (type' (blob r)) ''audio/webm'' \<rparr> \<rparr> = r)"
proof -
  have key: "id' (storable r) = id' r"
    by (simp add: storable_def rest_with_def)
  have got: "idb_get id' (id' r) (idb_put id' (storable r) (recordings w)) = Some (storable r)"
    using idb_get_put_same [of id' "storable r" "recordings w"] by (simp add: key)
  have mem: "hydrateRecording (storable r)
               \<in> set (map hydrateRecording (idb_put id' (storable r) (recordings w)))"
    using idb_put_member [of "storable r" id' "recordings w"] by simp
  have same: "type' (blob r) \<noteq> [] \<longrightarrow>
                r\<lparr> payload := (blob r)\<lparr> type' := or_else (type' (blob r)) ''audio/webm'' \<rparr> \<rparr> = r"
    by (simp add: or_else_def)
  from assms got mem same show ?thesis
    by (simp add: saveRecording_def getRecordingById_def getAllRecordings_def now_def emit_def
        hydrate_storable)
qed

theorem saveRecording_read_back_witness:
  "fst (getRecordingById envOk ''r1'' (snd (saveRecording envOk recLocal (storeOf [] [])))) =
     Inr (Some recLocal)"
  using saveRecording_read_back [of envOk "storeOf [] []" recLocal]
  by (simp add: envOk_def recLocal_def or_else_def)

theorem saveRecording_empty_type_counterexample:
  "type' (blob recNoType) = []
   \<and> fst (getRecordingById envOk ''r1'' (snd (saveRecording envOk recNoType (storeOf [] [])))) =
       Inr (Some (recNoType\<lparr> payload := \<lparr> arrayBuffer = [26, 69, 223, 163],
                                          type' = ''audio/webm'' \<rparr> \<rparr>))
   \<and> fst (getRecordingById envOk ''r1'' (snd (saveRecording envOk recNoType (storeOf [] [])))) \<noteq>
       Inr (Some recNoType)"
  by (simp add: saveRecording_def getRecordingById_def now_def emit_def storeOf_def envOk_def
      recNoType_def recLocal_def storable_def rest_with_def hydrateRecording_def or_else_def
      idb_get_def)

section \<open>A delete the server refuses\<close>

text \<open>
  C10. When \<open>handleDelete\<close> runs online and the server answers the delete request with a
  status that is not OK, \<open>deleteRecordingFromServer\<close> resolves \<open>false\<close> and \<open>handleDelete\<close>
  ends there: no pending delete is recorded, nothing is registered or scheduled, and the
  request is its only effect.
\<close>

theorem handleDelete_refused_is_dropped:
  assumes "onLine en (now w)" and "net en (now w) = Response st body" and "\<not> ok st"
  shows "fst (deleteRecordingFromServer en k rid w) = Inr False
         \<and> handleDelete en rid k w =
             (Inr (), emit (Fetch (DeleteRecordingReq k rid) (Response st body)) w)
         \<and> pendingDeletes (snd (handleDelete en rid k w)) = pendingDeletes w
         \<and> retryTimer (snd (handleDelete en rid k w)) = retryTimer w
         \<and> trace (snd (handleDelete en rid k w)) =
             trace w @ [Fetch (DeleteRecordingReq k rid) (Response st body)]"
  using assms
  by (simp add: handleDelete_def deleteRecordingFromServer_def fetch_def emit_def)

theorem handleDelete_refused_is_dropped_witness:
  "handleDelete env404 ''r1'' ''recordings/recording-r1.webm'' (storeOf [] []) =
     (Inr (),
      \<lparr> recordings = [], pendingDeletes = [], retryTimer = False,
        trace = [Fetch (DeleteRecordingReq ''recordings/recording-r1.webm'' ''r1'')
                   (Response 404 (Inl NotAnError))] \<rparr>)"
  using handleDelete_refused_is_dropped
          [of env404 "storeOf [] []" 404 "Inl NotAnError" "''recordings/recording-r1.webm''" "''r1''"]
  by (simp add: env404_def envOk_def storeOf_def now_def ok_def emit_def)

section \<open>A retry with the key recorded\<close>

lemma upload_event_no_transfer:
  "upload_event rid recording start k0 e \<Longrightarrow> \<not> falsy k0 \<Longrightarrow>
     \<not> transfer_call e \<and> (network_call e \<longrightarrow> metadata_commit e)"
  by (erule upload_event.cases) simp_all

lemma is_sleep_no_call: "is_sleep e \<Longrightarrow> \<not> transfer_call e \<and> \<not> network_call e"
  by (cases e) simp_all

text \<open>
  C2. When the stored recording has a key (a non-empty string: \<open>!s3Key\<close> treats the
  empty string as no key), no effect of \<open>uploadRecording\<close> is a request of the object
  transfer (\<open>getPresignedUrl\<close>, \<open>putToS3\<close>), and every network call it makes is the
  metadata commit \<open>saveRecordingToDb\<close>.
\<close>

theorem uploadRecording_skips_transfer:
  assumes "idb_get id' rid (recordings w) = Some r" and "s3Key r = Some k" and "k \<noteq> []"
  shows "\<forall>e\<in>set (events_since w (snd (uploadRecording en rid w))).
           \<not> transfer_call e \<and> (network_call e \<longrightarrow> metadata_commit e)"
proof
  fix e assume "e \<in> set (events_since w (snd (uploadRecording en rid w)))"
  with steps_events [OF uploadRecording_steps [of rid w en]]
  have "uploading rid w e" by blast
  moreover have "\<not> falsy (s3Key r)" using assms(2,3) by (simp add: falsy_def)
  ultimately show "\<not> transfer_call e \<and> (network_call e \<longrightarrow> metadata_commit e)"
    using assms(1) upload_event_no_transfer is_sleep_no_call
    by (auto simp: uploading_def)
qed

theorem uploadRecording_skips_transfer_witness:
  "events_since (storeOf [recKeyed] []) (snd (uploadRecording envOk ''r1'' (storeOf [recKeyed] []))) =
     [Db (GetRecordingByIdOp ''r1'') None,
      Db (UpdateRecordingStatusOp ''r1'' Uploading (noExtras\<lparr>uploadAttempts' := Some 2\<rparr>)) None,
      Fetch (SaveRecording (dbData recKeyed (Some ''recordings/recording-r1.webm'') Synced None))
        (Response 200 (Inr uploadTarget)),
      Db (DeleteRecordingOp ''r1'') None]
   \<and> list_all (\<lambda>e. \<not> transfer_call e \<and> (network_call e \<longrightarrow> metadata_commit e))
         (events_since (storeOf [recKeyed] [])
            (snd (uploadRecording envOk ''r1'' (storeOf [recKeyed] []))))"
proof -
  have run: "events_since (storeOf [recKeyed] []) (snd (uploadRecording envOk ''r1'' (storeOf [recKeyed] []))) =
     [Db (GetRecordingByIdOp ''r1'') None,
      Db (UpdateRecordingStatusOp ''r1'' Uploading (noExtras\<lparr>uploadAttempts' := Some 2\<rparr>)) None,
      Fetch (SaveRecording (dbData recKeyed (Some ''recordings/recording-r1.webm'') Synced None))
        (Response 200 (Inr uploadTarget)),
      Db (DeleteRecordingOp ''r1'') None]"
    by code_simp
  have get: "idb_get id' ''r1'' (recordings (storeOf [recKeyed] [])) = Some (storable recKeyed)"
    by code_simp
  have k: "s3Key (storable recKeyed) = Some ''recordings/recording-r1.webm''"
    by code_simp
  from run uploadRecording_skips_transfer [OF get k, of envOk] show ?thesis
    unfolding list_all_iff by simp
qed

section \<open>The attempt budget\<close>

lemma steps_within_budget:
  assumes "steps within_budget w w'"
  shows "(\<forall>e\<in>set (events_since w w'). \<forall>n. attempts_written e = Some n \<longrightarrow> n \<le> MAX_ATTEMPTS)
         \<and> ((\<forall>r\<in>set (recordings w). uploadAttempts r \<le> MAX_ATTEMPTS) \<longrightarrow>
              (\<forall>r\<in>set (recordings w'). uploadAttempts r \<le> MAX_ATTEMPTS))"
proof -
  have a: "\<forall>e\<in>set (events_since w w'). \<forall>n. attempts_written e = Some n \<longrightarrow> n \<le> MAX_ATTEMPTS"
    using steps_events [OF assms] by (auto simp: within_budget_def)
  have b: "\<forall>r\<in>set (recordings w'). uploadAttempts r \<le> MAX_ATTEMPTS"
    if "\<forall>r\<in>set (recordings w). uploadAttempts r \<le> MAX_ATTEMPTS"
    using assms that
  proof (rule steps_invariant)
    fix e and v :: world
    assume "within_budget e" "\<forall>r\<in>set (recordings v). uploadAttempts r \<le> MAX_ATTEMPTS"
    then show "\<forall>r\<in>set (recordings (step e v)). uploadAttempts r \<le> MAX_ATTEMPTS"
      using budget_step [of e v] by (simp add: within_budget_def)
  qed
  from a b show ?thesis by blast
qed

text \<open>
  C5. Every write of \<open>uploadAttempts\<close> that \<open>uploadRecording\<close> performs stores a value of at
  most 3, the budget \<open>MAX_ATTEMPTS\<close>; so when no stored recording exceeds the budget before
  the call, none does after it. The same holds of the whole lane after any sequence of
  messages (uploads, deletes and retries of everything pending).
\<close>

theorem uploadRecording_within_budget:
  "(\<forall>e\<in>set (events_since w (snd (uploadRecording en rid w))).
      \<forall>n. attempts_written e = Some n \<longrightarrow> n \<le> MAX_ATTEMPTS)
   \<and> ((\<forall>r\<in>set (recordings w). uploadAttempts r \<le> MAX_ATTEMPTS) \<longrightarrow>
        (\<forall>r\<in>set (recordings (snd (uploadRecording en rid w))). uploadAttempts r \<le> MAX_ATTEMPTS))
   \<and> (\<forall>e\<in>set (events_since w (snd (fold (onMessage en) ms promise_resolve w))).
        \<forall>n. attempts_written e = Some n \<longrightarrow> n \<le> MAX_ATTEMPTS)
   \<and> ((\<forall>r\<in>set (recordings w). uploadAttempts r \<le> MAX_ATTEMPTS) \<longrightarrow>
        (\<forall>r\<in>set (recordings (snd (fold (onMessage en) ms promise_resolve w))).
           uploadAttempts r \<le> MAX_ATTEMPTS))"
proof -
  have "steps within_budget w (snd (promise_resolve w))"
    by (simp add: promise_resolve_def steps_refl)
  then have "steps within_budget w (snd (fold (onMessage en) ms promise_resolve w))"
    by (rule lane_steps)
  from steps_within_budget [OF this] steps_within_budget [OF uploadRecording_budget_steps [of w en rid]]
  show ?thesis by blast
qed

theorem uploadRecording_within_budget_witness:
  "Db (UpdateRecordingStatusOp ''r1'' Uploading (noExtras\<lparr>uploadAttempts' := Some 2\<rparr>)) None
     \<in> set (events_since (storeOf [recLocal] [])
               (snd (uploadRecording env503 ''r1'' (storeOf [recLocal] []))))
   \<and> (2 :: int) \<le> MAX_ATTEMPTS
   \<and> list_all (\<lambda>r. uploadAttempts r \<le> MAX_ATTEMPTS)
         (recordings (snd (uploadRecording env503 ''r1'' (storeOf [recLocal] []))))"
proof -
  have written:
    "Db (UpdateRecordingStatusOp ''r1'' Uploading (noExtras\<lparr>uploadAttempts' := Some 2\<rparr>)) None
       \<in> set (events_since (storeOf [recLocal] [])
                 (snd (uploadRecording env503 ''r1'' (storeOf [recLocal] []))))"
    by code_simp
  have before: "\<forall>r\<in>set (recordings (storeOf [recLocal] [])). uploadAttempts r \<le> MAX_ATTEMPTS"
    by code_simp
  have "attempts_written
          (Db (UpdateRecordingStatusOp ''r1'' Uploading (noExtras\<lparr>uploadAttempts' := Some 2\<rparr>)) None)
        = Some 2"
    by (simp add: noExtras_def)
  with written before uploadRecording_within_budget [of "storeOf [recLocal] []" env503 "''r1''" "[]"]
  show ?thesis unfolding list_all_iff by blast
qed

section \<open>A spent budget\<close>

text \<open>
  C6 (as amended). No stored recording has status \<open>synced\<close> (the invariant of the store
  that \<open>uploadRecording\<close> keeps). When the stored recording has \<open>uploadAttempts\<close> at or
  above the budget, the only effect of \<open>uploadRecording\<close> is the read of the record: no
  network call and no write. When the read completes it returns the failure result with
  status \<open>failed\<close>; when the store rejects the read, its error is thrown.
\<close>

theorem uploadRecording_budget_spent:
  assumes "\<forall>r\<in>set (recordings w). status r \<noteq> Synced"
    and "idb_get id' rid (recordings w) = Some r" and "uploadAttempts r \<ge> MAX_ATTEMPTS"
  shows "snd (uploadRecording en rid w) = emit (Db (GetRecordingByIdOp rid) (dbFault en (now w))) w
         \<and> events_since w (snd (uploadRecording en rid w)) =
             [Db (GetRecordingByIdOp rid) (dbFault en (now w))]
         \<and> recordings (snd (uploadRecording en rid w)) = recordings w
         \<and> (dbFault en (now w) = None \<longrightarrow>
              fst (uploadRecording en rid w) =
                Inr \<lparr> success = False, recordingId = rid, r_status = Failed,
                       error = Some (case lastError r of
                                       Some e \<Rightarrow> e
                                     | None \<Rightarrow> ''Maximum upload attempts reached'') \<rparr>)
         \<and> (\<forall>e. dbFault en (now w) = Some e \<longrightarrow> fst (uploadRecording en rid w) = Inl e)"
proof -
  from idb_get_SomeD [OF assms(2)] assms(1) have "status r \<noteq> Synced" by blast
  with assms(2,3) show ?thesis
    by (auto simp: uploadRecording_def getRecordingById_def events_since_def emit_def
             split: option.splits)
qed

theorem uploadRecording_budget_spent_witness:
  "uploadRecording envOk ''r1'' (storeOf [recSpent] []) =
     (Inr \<lparr> success = False, recordingId = ''r1'', r_status = Failed,
            error = Some ''S3 upload failed: 403'' \<rparr>,
      emit (Db (GetRecordingByIdOp ''r1'') None) (storeOf [recSpent] []))
   \<and> events_since (storeOf [recSpent] []) (snd (uploadRecording envOk ''r1'' (storeOf [recSpent] []))) =
       [Db (GetRecordingByIdOp ''r1'') None]"
proof -
  have inv: "\<forall>r\<in>set (recordings (storeOf [recSpent] [])). status r \<noteq> Synced" by code_simp
  have get: "idb_get id' ''r1'' (recordings (storeOf [recSpent] [])) = Some (storable recSpent)"
    by code_simp
  have spent: "uploadAttempts (storable recSpent) \<ge> MAX_ATTEMPTS"
    by code_simp
  have facts: "dbFault envOk (now (storeOf [recSpent] [])) = None"
    "lastError (storable recSpent) = Some ''S3 upload failed: 403''"
    by code_simp+
  note th = uploadRecording_budget_spent [OF inv get spent, of envOk]
  note w' = th [THEN conjunct1, unfolded facts]
  note ev = th [THEN conjunct2, THEN conjunct1, unfolded facts]
  note res = th [THEN conjunct2, THEN conjunct2, THEN conjunct2, THEN conjunct1, THEN mp,
                 OF facts(1), unfolded facts option.case]
  from res w' have "uploadRecording envOk ''r1'' (storeOf [recSpent] []) =
     (Inr \<lparr> success = False, recordingId = ''r1'', r_status = Failed,
            error = Some ''S3 upload failed: 403'' \<rparr>,
      emit (Db (GetRecordingByIdOp ''r1'') None) (storeOf [recSpent] []))"
    by (intro prod_eqI) simp_all
  with ev show ?thesis by (intro conjI)
qed

theorem uploadRecording_budget_spent_counterexample:
  "idb_get id' ''r1'' (recordings (storeOf [recSpent] [])) = Some (storable recSpent)
   \<and> uploadAttempts (storable recSpent) = 3
   \<and> status (storable recSpent) = Failed
   \<and> uploadRecording envNoRead ''r1'' (storeOf [recSpent] []) =
       (Inl (DOMException ''UnknownError'' ''Internal error opening backing store''),
        emit (Db (GetRecordingByIdOp ''r1'')
                (Some (DOMException ''UnknownError'' ''Internal error opening backing store'')))
          (storeOf [recSpent] []))"
  by code_simp

section \<open>The lane\<close>

text \<open>
  C7. Whatever the course of events (messages arriving, in any number and at any moment,
  between the steps of the tasks in flight): every message (upload, delete, retry of
  everything) submits one task to the lane, numbered in order of arrival; at most one task
  is running at any time, and only the running task takes steps; a task starts only when
  the tasks submitted before it, and no others, have finished, so a delete requested while
  an upload is in flight starts after that upload has finished; a task that was rejected is
  followed by the next one all the same; when no task is running none is waiting; and
  then the world is the one that the handlers of the messages leave when they are run one
  after the other in order of arrival, each on the world the one before it left. While
  the task of the \<open>c\<close>-th message is running, letting it finish gives the world that the
  handlers of the first \<open>c\<close> messages leave: what arrives in the meantime changes nothing.
\<close>

theorem lane_runs_one_at_a_time:
  "lane_ok (history (fold (exec_action en) acts (boot w)))
   \<and> length (running (fold (exec_action en) acts (boot w))) \<le> 1
   \<and> submitted_ids (history (fold (exec_action en) acts (boot w))) =
       [1..<Suc (length (messages acts))]
   \<and> (\<forall>d e. Finished d (Inl e) \<in> set (history (fold (exec_action en) acts (boot w)))
            \<and> Submitted (Suc d) \<in> set (history (fold (exec_action en) acts (boot w)))
          \<longrightarrow> Started (Suc d) \<in> set (history (fold (exec_action en) acts (boot w))))
   \<and> (running (fold (exec_action en) acts (boot w)) = [] \<longrightarrow>
        mem (fold (exec_action en) acts (boot w)) =
          lane_spec
            (map (\<lambda>m. case m of
                         UPLOAD_RECORDING rid \<Rightarrow> handleUpload en rid
                       | DELETE_RECORDING rid k \<Rightarrow> handleDelete en rid k
                       | RETRY_ALL_UPLOADS \<Rightarrow> handleRetryAll en)
               (messages acts)) w)
   \<and> (\<forall>c p. running (fold (exec_action en) acts (boot w)) = [(c, p)] \<longrightarrow>
        snd (run p (mem (fold (exec_action en) acts (boot w)))) =
          lane_spec
            (map (\<lambda>m. case m of
                         UPLOAD_RECORDING rid \<Rightarrow> handleUpload en rid
                       | DELETE_RECORDING rid k \<Rightarrow> handleDelete en rid k
                       | RETRY_ALL_UPLOADS \<Rightarrow> handleRetryAll en)
               (take c (messages acts))) w)"
proof -
  let ?s = "fold (exec_action en) acts (boot w)"
  let ?n = "length (messages acts)"
  let ?h = "history ?s"
  note inv = lane_inv_reachable [of en w acts]
  have task: "task_of en = (\<lambda>m. case m of
                         UPLOAD_RECORDING rid \<Rightarrow> handleUpload en rid
                       | DELETE_RECORDING rid k \<Rightarrow> handleDelete en rid k
                       | RETRY_ALL_UPLOADS \<Rightarrow> handleRetryAll en)"
    by (rule ext) (simp add: task_of_def)
  from inv consider
    (idle) "running ?s = []"
      "mem ?s = lane_spec (map (task_of en) (messages acts)) w"
      "fold lane_step ?h (Some ([], [], None)) = Some ([1..<Suc ?n], [1..<Suc ?n], None)"
  | (busy) c p where "1 \<le> c" "c \<le> ?n" "running ?s = [(c, p)]"
      "fold lane_step ?h (Some ([], [], None)) = Some ([1..<Suc ?n], [1..<c], Some c)"
      "snd (run p (mem ?s)) = lane_spec (map (task_of en) (take c (messages acts))) w"
    unfolding lane_inv_def by blast
  then show ?thesis
  proof cases
    case idle
    note f = lane_step_facts [OF idle(3)]
    have ok: "lane_ok ?h" by (simp add: lane_ok_def idle(3))
    have sub: "submitted_ids ?h = [1..<Suc ?n]" using f by simp
    have st: "{d. Started d \<in> set ?h} = set [1..<Suc ?n]"
      using f [THEN conjunct2, THEN conjunct1] by (auto simp del: upt_Suc)
    have started: "Started (Suc d) \<in> set ?h"
      if "Finished d (Inl e) \<in> set ?h" "Submitted (Suc d) \<in> set ?h" for d e
    proof -
      from that(2) have "Suc d \<in> set (submitted_ids ?h)" by (simp add: submitted_ids_set)
      with sub have "Suc d \<in> set [1..<Suc ?n]" by (simp only:)
      with st show ?thesis by blast
    qed
    from started have c4: "\<forall>d e. Finished d (Inl e) \<in> set ?h \<and> Submitted (Suc d) \<in> set ?h
                             \<longrightarrow> Started (Suc d) \<in> set ?h"
      by blast
    have c2: "length (running ?s) \<le> 1" using idle(1) by simp
    have c5: "running ?s = [] \<longrightarrow> mem ?s = lane_spec (map (task_of en) (messages acts)) w"
      using idle(2) by simp
    have c6: "\<forall>c p. running ?s = [(c, p)] \<longrightarrow>
                snd (run p (mem ?s)) = lane_spec (map (task_of en) (take c (messages acts))) w"
      using idle(1) by simp
    from ok c2 sub c4 c5 c6 show ?thesis unfolding task by (intro conjI)
  next
    case (busy c p)
    note f = lane_step_facts [OF busy(4)]
    have ok: "lane_ok ?h" by (simp add: lane_ok_def busy(4))
    have sub: "submitted_ids ?h = [1..<Suc ?n]" using f by simp
    have st: "{d. Started d \<in> set ?h} = set [1..<c] \<union> {c}"
      using f [THEN conjunct2, THEN conjunct1] by (auto simp del: upt_Suc)
    have fin: "{d. \<exists>r. Finished d r \<in> set ?h} = set [1..<c]"
      using f [THEN conjunct2, THEN conjunct2] by (auto simp del: upt_Suc)
    have started: "Started (Suc d) \<in> set ?h"
      if "Finished d (Inl e) \<in> set ?h" "Submitted (Suc d) \<in> set ?h" for d e
    proof -
      from that(1) fin have "d \<in> set [1..<c]" by blast
      then have "Suc d \<in> set [1..<c] \<union> {c}" by auto
      with st show ?thesis by blast
    qed
    from started have c4: "\<forall>d e. Finished d (Inl e) \<in> set ?h \<and> Submitted (Suc d) \<in> set ?h
                             \<longrightarrow> Started (Suc d) \<in> set ?h"
      by blast
    have c2: "length (running ?s) \<le> 1" using busy(3) by simp
    have c5: "running ?s = [] \<longrightarrow> mem ?s = lane_spec (map (task_of en) (messages acts)) w"
      using busy(3) by simp
    have c6: "\<forall>c p. running ?s = [(c, p)] \<longrightarrow>
                snd (run p (mem ?s)) = lane_spec (map (task_of en) (take c (messages acts))) w"
      using busy(3,5) by simp
    from ok c2 sub c4 c5 c6 show ?thesis unfolding task by (intro conjI)
  qed
qed

theorem lane_runs_one_at_a_time_witness:
  "history (fold (exec_action envOk) scheduleA (boot (storeOf [recLocal] []))) =
     [Submitted 1, Started 1, Stepped 1, Stepped 1, Stepped 1, Submitted 2, Submitted 3,
      Stepped 1, Stepped 1, Stepped 1, Stepped 1, Stepped 1, Stepped 1, Finished 1 (Inr ()),
      Started 2, Stepped 2, Finished 2 (Inr ()),
      Started 3, Stepped 3, Stepped 3, Stepped 3, Finished 3 (Inr ())]
   \<and> lane_ok (history (fold (exec_action envOk) scheduleA (boot (storeOf [recLocal] []))))
   \<and> submitted_ids (history (fold (exec_action envOk) scheduleA (boot (storeOf [recLocal] [])))) =
       [1, 2, 3]
   \<and> mem (fold (exec_action envOk) scheduleA (boot (storeOf [recLocal] []))) =
       lane_spec [handleUpload envOk ''r1'',
                  handleDelete envOk ''r1'' ''recordings/recording-r1.webm'',
                  handleRetryAll envOk] (storeOf [recLocal] [])
   \<and> trace (mem (fold (exec_action envOk) scheduleA (boot (storeOf [recLocal] [])))) ! 8 =
       PostMessage \<lparr> success = True, recordingId = ''r1'', r_status = Synced, error = None \<rparr>
   \<and> trace (mem (fold (exec_action envOk) scheduleA (boot (storeOf [recLocal] [])))) ! 9 =
       Fetch (DeleteRecordingReq ''recordings/recording-r1.webm'' ''r1'')
         (Response 200 (Inr uploadTarget))
   \<and> history (fold (exec_action envReadFails) scheduleB (boot (storeOf [recLocal] []))) =
       [Submitted 1, Started 1, Stepped 1, Submitted 2, Stepped 1,
        Finished 1 (Inl (DOMException ''UnknownError'' ''Internal error opening backing store'')),
        Started 2, Stepped 2, Finished 2 (Inr ())]
   \<and> Started 2 \<in> set (history (fold (exec_action envReadFails) scheduleB
                                   (boot (storeOf [recLocal] []))))"
proof -
  let ?A = "fold (exec_action envOk) scheduleA (boot (storeOf [recLocal] []))"
  let ?B = "fold (exec_action envReadFails) scheduleB (boot (storeOf [recLocal] []))"
  have hA: "history ?A =
     [Submitted 1, Started 1, Stepped 1, Stepped 1, Stepped 1, Submitted 2, Submitted 3,
      Stepped 1, Stepped 1, Stepped 1, Stepped 1, Stepped 1, Stepped 1, Finished 1 (Inr ()),
      Started 2, Stepped 2, Finished 2 (Inr ()),
      Started 3, Stepped 3, Stepped 3, Stepped 3, Finished 3 (Inr ())]"
    by code_simp
  have hB: "history ?B =
       [Submitted 1, Started 1, Stepped 1, Submitted 2, Stepped 1,
        Finished 1 (Inl (DOMException ''UnknownError'' ''Internal error opening backing store'')),
        Started 2, Stepped 2, Finished 2 (Inr ())]"
    by code_simp
  have idle: "running ?A = []" by code_simp
  have t8: "trace (mem ?A) ! 8 =
       PostMessage \<lparr> success = True, recordingId = ''r1'', r_status = Synced, error = None \<rparr>"
    by code_simp
  have t9: "trace (mem ?A) ! 9 =
       Fetch (DeleteRecordingReq ''recordings/recording-r1.webm'' ''r1'')
         (Response 200 (Inr uploadTarget))"
    by code_simp
  have msgs: "messages scheduleA =
                [UPLOAD_RECORDING ''r1'', DELETE_RECORDING ''r1'' ''recordings/recording-r1.webm'',
                 RETRY_ALL_UPLOADS]"
    by (simp add: scheduleA_def)
  note A = lane_runs_one_at_a_time [of envOk scheduleA "storeOf [recLocal] []"]
  note B = lane_runs_one_at_a_time [of envReadFails scheduleB "storeOf [recLocal] []"]
  have ok: "lane_ok (history ?A)" by (rule A [THEN conjunct1])
  have sub: "submitted_ids (history ?A) = [1, 2, 3]"
    using A [THEN conjunct2, THEN conjunct2, THEN conjunct1] by (simp add: msgs upt_rec)
  have world: "mem ?A =
       lane_spec [handleUpload envOk ''r1'',
                  handleDelete envOk ''r1'' ''recordings/recording-r1.webm'',
                  handleRetryAll envOk] (storeOf [recLocal] [])"
    using A [THEN conjunct2, THEN conjunct2, THEN conjunct2, THEN conjunct2, THEN conjunct1,
             THEN mp, OF idle]
    by (simp add: msgs)
  have pre: "Finished 1 (Inl (DOMException ''UnknownError'' ''Internal error opening backing store''))
               \<in> set (history ?B) \<and> Submitted (Suc 1) \<in> set (history ?B)"
    unfolding hB by simp
  from B [THEN conjunct2, THEN conjunct2, THEN conjunct2, THEN conjunct1, rule_format,
          of 1 "DOMException ''UnknownError'' ''Internal error opening backing store''", OF pre]
  have nxt: "Started 2 \<in> set (history ?B)" by (simp only: Suc_1)
  from hA ok sub world t8 t9 hB nxt show ?thesis by (intro conjI)
qed

section \<open>The backoff delay\<close>




section \<open>Synced means committed and purged\<close>

lemma upload_event_never_synced:
  "upload_event rid recording start k0 e \<Longrightarrow> \<not> persists_synced e"
  by (erule upload_event.cases) simp_all

lemma uploading_never_synced: "uploading rid w e \<Longrightarrow> \<not> persists_synced e"
  by (auto simp: uploading_def dest: upload_event_never_synced elim: is_sleep.elims)

lemma updated_status [simp]: "status (updated r st x) = st"
  by (simp add: updated_def)

lemma never_synced_step:
  assumes "\<not> persists_synced e" and "\<forall>r\<in>set (recordings w). status r \<noteq> Synced"
  shows "\<forall>r\<in>set (recordings (step e w)). status r \<noteq> Synced"
proof
  fix r assume "r \<in> set (recordings (step e w))"
  with recordings_step_subset [of e w] assms
  show "status r \<noteq> Synced"
    by (auto split: event.splits db_op.splits option.splits)
qed

text \<open>
  C1. \<open>uploadRecording\<close> never writes the status \<open>synced\<close> to the store, so a store with
  no record of status \<open>synced\<close> has none after it. It calls \<open>deleteRecording\<close> only after the
  PUT to the object store has been answered OK (in this call, or before it: the record
  then carries its key) and the metadata commit with status \<open>synced\<close> has been answered
  OK; the key itself is written to the record only after the PUT has been answered OK.
  And when it returns status \<open>synced\<close>, its last two effects are that commit and the
  completed \<open>deleteRecording\<close>, and the record is gone from the store.
\<close>

theorem synced_only_after_commit:
  assumes "\<forall>r\<in>set (recordings w). status r \<noteq> Synced"
  shows "(\<forall>e\<in>set (events_since w (snd (uploadRecording en rid w))). \<not> persists_synced e)
         \<and> (\<forall>r\<in>set (recordings (snd (uploadRecording en rid w))). status r \<noteq> Synced)
         \<and> purge_guarded
             (case idb_get id' rid (recordings w) of Some r \<Rightarrow> \<not> falsy (s3Key r) | None \<Rightarrow> False)
             False (events_since w (snd (uploadRecording en rid w)))
         \<and> (\<forall>res. fst (uploadRecording en rid w) = Inr res \<and> r_status res = Synced \<longrightarrow>
               success res
               \<and> idb_get id' rid (recordings (snd (uploadRecording en rid w))) = None
               \<and> (\<exists>xs d st body.
                     events_since w (snd (uploadRecording en rid w)) =
                       xs @ [Fetch (SaveRecording d) (Response st body),
                             Db (DeleteRecordingOp rid) None]
                     \<and> ok st \<and> d_status d = Synced))"
proof -
  let ?w' = "snd (uploadRecording en rid w)"
  note st = uploadRecording_steps [of rid w en]
  have a: "\<forall>e\<in>set (events_since w ?w'). \<not> persists_synced e"
    using steps_events [OF st] uploading_never_synced by blast
  have b: "\<forall>r\<in>set (recordings ?w'). status r \<noteq> Synced"
    using st assms
  proof (rule steps_invariant)
    fix e and v :: world
    assume "uploading rid w e" "\<forall>r\<in>set (recordings v). status r \<noteq> Synced"
    then show "\<forall>r\<in>set (recordings (step e v)). status r \<noteq> Synced"
      using uploading_never_synced never_synced_step by blast
  qed
  have c: "purge_guarded
             (case idb_get id' rid (recordings w) of Some r \<Rightarrow> \<not> falsy (s3Key r) | None \<Rightarrow> False)
             False (events_since w ?w')"
    using uploadRecording_guarded [of rid w en] unfolding guarded_def by auto
  have d: "success res \<and> idb_get id' rid (recordings ?w') = None
           \<and> (\<exists>xs d st body.
                 events_since w ?w' = xs @ [Fetch (SaveRecording d) (Response st body),
                                            Db (DeleteRecordingOp rid) None]
                 \<and> ok st \<and> d_status d = Synced)"
    if "fst (uploadRecording en rid w) = Inr res" "r_status res = Synced" for res
    using uploadRecording_purged [OF that assms] committed_then_purged_store by blast
  from a b c d show ?thesis by blast
qed

theorem synced_only_after_commit_witness:
  "fst (uploadRecording envOk ''r1'' (storeOf [recLocal] [])) =
     Inr \<lparr> success = True, recordingId = ''r1'', r_status = Synced, error = None \<rparr>
   \<and> recordings (snd (uploadRecording envOk ''r1'' (storeOf [recLocal] []))) = []
   \<and> purge_guarded False False
       (events_since (storeOf [recLocal] []) (snd (uploadRecording envOk ''r1'' (storeOf [recLocal] []))))
   \<and> list_all (\<lambda>e. \<not> persists_synced e)
       (events_since (storeOf [recLocal] []) (snd (uploadRecording envOk ''r1'' (storeOf [recLocal] []))))
   \<and> idb_get id' ''r1'' (recordings (snd (uploadRecording envOk ''r1'' (storeOf [recLocal] [])))) = None"
proof -
  have before: "\<forall>r\<in>set (recordings (storeOf [recLocal] [])). status r \<noteq> Synced"
    by code_simp
  have res: "fst (uploadRecording envOk ''r1'' (storeOf [recLocal] [])) =
     Inr \<lparr> success = True, recordingId = ''r1'', r_status = Synced, error = None \<rparr>"
    by code_simp
  have store: "recordings (snd (uploadRecording envOk ''r1'' (storeOf [recLocal] []))) = []"
    by code_simp
  have key: "(case idb_get id' ''r1'' (recordings (storeOf [recLocal] [])) of
                Some r \<Rightarrow> \<not> falsy (s3Key r) | None \<Rightarrow> False) = False"
    by code_simp
  from synced_only_after_commit [OF before, of envOk "''r1''"] res store key
  show ?thesis unfolding list_all_iff by simp
qed

section \<open>A network failure\<close>

text \<open>
  C3 (as amended). When the \<open>try\<close> block of an attempt ends with a network-class error,
  \<open>uploadRecording\<close> makes one more effect and no further attempt: the write of status
  \<open>local\<close> with \<open>uploadAttempts\<close> set to \<open>startAttempt\<close>, the value the record had when
  \<open>uploadRecording\<close> was called. When that write completes, the record has status \<open>local\<close>
  and \<open>uploadAttempts = startAttempt\<close>, and the result with status \<open>local\<close> is returned;
  when the store rejects that write, \<open>uploadRecording\<close> throws the store's error and the
  record stays as the attempt left it. So whenever \<open>uploadRecording\<close> returns status
  \<open>local\<close>, the result is a failure, the stored record has status \<open>local\<close> and the
  \<open>uploadAttempts\<close> it had before the call, and that write is the last effect.
\<close>

theorem network_failure_reverts:
  "(a < MAX_ATTEMPTS
    \<and> updateRecordingStatus en rid Uploading (noExtras\<lparr>uploadAttempts' := Some (a + 1)\<rparr>)
        (if a > start then sleep (backoffDelay (a - 1) (random en (now w))) w else w) = (Inr x, w1)
    \<and> tryBlock en rid recording k w1 = (Inl err, k', w2) \<and> isNetworkError err \<longrightarrow>
      uploadLoop en rid recording start a k le w =
        (case dbFault en (now w2) of
           None \<Rightarrow> Inr (Return \<lparr> success = False, recordingId = rid, r_status = Local,
                                  error = Some (if instanceof_Error err then message err
                                                else ''Unknown error'') \<rparr>)
         | Some e \<Rightarrow> Inl e,
         step (Db (UpdateRecordingStatusOp rid Local (noExtras\<lparr>uploadAttempts' := Some start\<rparr>))
                 (dbFault en (now w2))) w2)
      \<and> recordings (snd (uploadLoop en rid recording start a k le w)) =
          (case dbFault en (now w2) of
             Some e \<Rightarrow> recordings w2
           | None \<Rightarrow>
               (case idb_get id' rid (recordings w2) of
                  None \<Rightarrow> recordings w2
                | Some r \<Rightarrow>
                    idb_put id' (updated r Local (noExtras\<lparr>uploadAttempts' := Some start\<rparr>))
                      (recordings w2))))
   \<and> (uploadRecording en rid w0 = (Inr res, w') \<and> r_status res = Local \<longrightarrow>
        \<not> success res
        \<and> (\<exists>r0 r. idb_get id' rid (recordings w0) = Some r0
              \<and> idb_get id' rid (recordings w') = Some r
              \<and> status r = Local \<and> uploadAttempts r = uploadAttempts r0
              \<and> last (trace w') =
                  Db (UpdateRecordingStatusOp rid Local
                        (noExtras\<lparr>uploadAttempts' := Some (uploadAttempts r0)\<rparr>)) None))"
proof (intro conjI impI)
  assume h: "a < MAX_ATTEMPTS
    \<and> updateRecordingStatus en rid Uploading (noExtras\<lparr>uploadAttempts' := Some (a + 1)\<rparr>)
        (if a > start then sleep (backoffDelay (a - 1) (random en (now w))) w else w) = (Inr x, w1)
    \<and> tryBlock en rid recording k w1 = (Inl err, k', w2) \<and> isNetworkError err"
  then have it: "iteration en rid recording start a k w =
      (case updateRecordingStatus en rid Local (noExtras\<lparr>uploadAttempts' := Some start\<rparr>) w2 of
         (Inl e, w3) \<Rightarrow> (Inl e, w3)
       | (Inr y, w3) \<Rightarrow>
           (Inr (Inl (Return \<lparr> success = False, recordingId = rid, r_status = Local,
                               error = Some (if instanceof_Error err then message err
                                             else ''Unknown error'') \<rparr>)), w3))"
    by (simp add: iteration_def)
  from h show run: "uploadLoop en rid recording start a k le w =
        (case dbFault en (now w2) of
           None \<Rightarrow> Inr (Return \<lparr> success = False, recordingId = rid, r_status = Local,
                                  error = Some (if instanceof_Error err then message err
                                                else ''Unknown error'') \<rparr>)
         | Some e \<Rightarrow> Inl e,
         step (Db (UpdateRecordingStatusOp rid Local (noExtras\<lparr>uploadAttempts' := Some start\<rparr>))
                 (dbFault en (now w2))) w2)"
    by (subst uploadLoop.simps) (simp add: it updateRecordingStatus_run split: option.splits)
  show "recordings (snd (uploadLoop en rid recording start a k le w)) =
          (case dbFault en (now w2) of
             Some e \<Rightarrow> recordings w2
           | None \<Rightarrow>
               (case idb_get id' rid (recordings w2) of
                  None \<Rightarrow> recordings w2
                | Some r \<Rightarrow>
                    idb_put id' (updated r Local (noExtras\<lparr>uploadAttempts' := Some start\<rparr>))
                      (recordings w2)))"
    unfolding run by (simp add: step_def emit_def split: option.splits)
next
  assume h: "uploadRecording en rid w0 = (Inr res, w') \<and> r_status res = Local"
  then have u: "uploadRecording en rid w0 = (Inr res, w')" and l: "r_status res = Local"
    by simp_all
  from uploadRecording_reverted [OF u l] show "\<not> success res" by simp
  from uploadRecording_reverted [OF u l] obtain r0 v r where
    r0: "idb_get id' rid (recordings w0) = Some r0"
    and w': "w' = step (Db (UpdateRecordingStatusOp rid Local
                              (noExtras\<lparr>uploadAttempts' := Some (uploadAttempts r0)\<rparr>)) None) v"
    and r: "idb_get id' rid (recordings v) = Some r"
    by blast
  from update_event_get [OF r, of Local "noExtras\<lparr>uploadAttempts' := Some (uploadAttempts r0)\<rparr>" None]
    w'
  have "idb_get id' rid (recordings w') =
          Some (updated r Local (noExtras\<lparr>uploadAttempts' := Some (uploadAttempts r0)\<rparr>))"
    by simp
  moreover have "uploadAttempts (updated r Local (noExtras\<lparr>uploadAttempts' := Some (uploadAttempts r0)\<rparr>))
                   = uploadAttempts r0"
    by (simp add: updated_def)
  moreover from w' have "last (trace w') =
      Db (UpdateRecordingStatusOp rid Local
            (noExtras\<lparr>uploadAttempts' := Some (uploadAttempts r0)\<rparr>)) None"
    by simp
  ultimately show "\<exists>r0 r. idb_get id' rid (recordings w0) = Some r0
              \<and> idb_get id' rid (recordings w') = Some r
              \<and> status r = Local \<and> uploadAttempts r = uploadAttempts r0
              \<and> last (trace w') =
                  Db (UpdateRecordingStatusOp rid Local
                        (noExtras\<lparr>uploadAttempts' := Some (uploadAttempts r0)\<rparr>)) None"
    using r0 by (intro exI [of _ r0] exI [of _ "updated r Local (noExtras\<lparr>uploadAttempts' := Some (uploadAttempts r0)\<rparr>)"]) simp
qed

theorem network_failure_reverts_witness:
  "uploadLoop envOffline ''r1'' recKeyed 1 1 (Some ''recordings/recording-r1.webm'') None afterRead =
     (Inr (Return \<lparr> success = False, recordingId = ''r1'', r_status = Local,
                     error = Some ''Failed to fetch'' \<rparr>),
      step (Db (UpdateRecordingStatusOp ''r1'' Local (noExtras\<lparr>uploadAttempts' := Some 1\<rparr>)) None)
        attemptFailed)
   \<and> map uploadAttempts (recordings attemptFailed) = [2]
   \<and> map uploadAttempts
        (recordings (snd (uploadLoop envOffline ''r1'' recKeyed 1 1
                            (Some ''recordings/recording-r1.webm'') None afterRead))) = [1]
   \<and> uploadRecording envOffline ''r1'' (storeOf [recKeyed] []) =
       (Inr \<lparr> success = False, recordingId = ''r1'', r_status = Local,
              error = Some ''Failed to fetch'' \<rparr>,
        snd (uploadRecording envOffline ''r1'' (storeOf [recKeyed] [])))
   \<and> (\<exists>r0 r. idb_get id' ''r1'' (recordings (storeOf [recKeyed] [])) = Some r0
         \<and> idb_get id' ''r1''
             (recordings (snd (uploadRecording envOffline ''r1'' (storeOf [recKeyed] [])))) = Some r
         \<and> status r = Local \<and> uploadAttempts r = uploadAttempts r0
         \<and> last (trace (snd (uploadRecording envOffline ''r1'' (storeOf [recKeyed] [])))) =
             Db (UpdateRecordingStatusOp ''r1'' Local
                   (noExtras\<lparr>uploadAttempts' := Some (uploadAttempts r0)\<rparr>)) None)
   \<and> fst (uploadRecording envLost ''r1'' (storeOf [recKeyed] [])) =
       Inl (DOMException ''AbortError'' ''The transaction was aborted'')
   \<and> map (\<lambda>r. (status r, uploadAttempts r))
        (recordings (snd (uploadRecording envLost ''r1'' (storeOf [recKeyed] [])))) =
       [(Uploading, 2)]"
proof -
  let ?k = "Some ''recordings/recording-r1.webm''"
  let ?x = "fst (updateRecordingStatus envOffline ''r1'' Uploading
                   (noExtras\<lparr>uploadAttempts' := Some 2\<rparr>) afterRead)"
  have budget: "(1 :: int) < MAX_ATTEMPTS" by (simp add: MAX_ATTEMPTS_def)
  have started: "updateRecordingStatus envOffline ''r1'' Uploading
                   (noExtras\<lparr>uploadAttempts' := Some (1 + 1)\<rparr>)
                   (if (1 :: int) > 1
                    then sleep (backoffDelay (1 - 1) (random envOffline (now afterRead))) afterRead
                    else afterRead) =
                 (Inr (Some (recKeyed\<lparr>status := Uploading, uploadAttempts := 2\<rparr>)), attemptStarted)"
    by code_simp
  have failed: "tryBlock envOffline ''r1'' recKeyed ?k attemptStarted =
                  (Inl (TypeError ''Failed to fetch''), ?k, attemptFailed)"
    by code_simp
  have net: "isNetworkError (TypeError ''Failed to fetch'')" by simp
  have nofault: "dbFault envOffline (now attemptFailed) = None" by code_simp
  have consumed: "map uploadAttempts (recordings attemptFailed) = [2]" by code_simp
  have found: "idb_get id' ''r1'' (recordings attemptFailed) =
                 Some (storable (recKeyed\<lparr>status := Uploading, uploadAttempts := 2\<rparr>))"
    by code_simp
  have run: "uploadRecording envOffline ''r1'' (storeOf [recKeyed] []) =
     (Inr \<lparr> success = False, recordingId = ''r1'', r_status = Local,
            error = Some ''Failed to fetch'' \<rparr>,
      snd (uploadRecording envOffline ''r1'' (storeOf [recKeyed] [])))"
    by code_simp
  note th = network_failure_reverts
         [where a = 1 and en = envOffline and rid = "''r1''" and start = 1 and w = afterRead
            and x = "Some (recKeyed\<lparr>status := Uploading, uploadAttempts := 2\<rparr>)"
            and ?w1.0 = attemptStarted and recording = recKeyed and k = ?k
            and err = "TypeError ''Failed to fetch''" and k' = ?k and ?w2.0 = attemptFailed
            and le = None and ?w0.0 = "storeOf [recKeyed] []"
            and res = "\<lparr> success = False, recordingId = ''r1'', r_status = Local,
                        error = Some ''Failed to fetch'' \<rparr>"
            and w' = "snd (uploadRecording envOffline ''r1'' (storeOf [recKeyed] []))"]
  note both = th [THEN conjunct1, THEN mp, OF conjI [OF budget conjI [OF started conjI [OF failed net]]]]
  note loop = both [THEN conjunct1]
  note store = both [THEN conjunct2]
  have c1: "uploadLoop envOffline ''r1'' recKeyed 1 1 ?k None afterRead =
     (Inr (Return \<lparr> success = False, recordingId = ''r1'', r_status = Local,
                     error = Some ''Failed to fetch'' \<rparr>),
      step (Db (UpdateRecordingStatusOp ''r1'' Local (noExtras\<lparr>uploadAttempts' := Some 1\<rparr>)) None)
        attemptFailed)"
    unfolding loop nofault by simp
  have put: "map uploadAttempts
               (idb_put id' (updated (storable (recKeyed\<lparr>status := Uploading, uploadAttempts := 2\<rparr>))
                               Local (noExtras\<lparr>uploadAttempts' := Some 1\<rparr>))
                  (recordings attemptFailed)) = [1]"
    by code_simp
  have c3: "map uploadAttempts
        (recordings (snd (uploadLoop envOffline ''r1'' recKeyed 1 1 ?k None afterRead))) = [1]"
    unfolding store nofault found using put by simp
  from th [THEN conjunct2] run
  have c5: "\<exists>r0 r. idb_get id' ''r1'' (recordings (storeOf [recKeyed] [])) = Some r0
         \<and> idb_get id' ''r1''
             (recordings (snd (uploadRecording envOffline ''r1'' (storeOf [recKeyed] [])))) = Some r
         \<and> status r = Local \<and> uploadAttempts r = uploadAttempts r0
         \<and> last (trace (snd (uploadRecording envOffline ''r1'' (storeOf [recKeyed] [])))) =
             Db (UpdateRecordingStatusOp ''r1'' Local
                   (noExtras\<lparr>uploadAttempts' := Some (uploadAttempts r0)\<rparr>)) None"
    by simp
  have lost: "fst (uploadRecording envLost ''r1'' (storeOf [recKeyed] [])) =
       Inl (DOMException ''AbortError'' ''The transaction was aborted'')"
    by code_simp
  have stuck: "map (\<lambda>r. (status r, uploadAttempts r))
        (recordings (snd (uploadRecording envLost ''r1'' (storeOf [recKeyed] [])))) =
       [(Uploading, 2)]"
    by code_simp
  from c1 consumed c3 run c5 lost stuck show ?thesis by (intro conjI)
qed

theorem network_failure_reverts_counterexample:
  "map uploadAttempts (recordings (storeOf [recLocal] [])) = [0]
   \<and> events_since (storeOf [recLocal] [])
       (snd (uploadRecording env503 ''r1'' (storeOf [recLocal] []))) ! 1 =
       Db (UpdateRecordingStatusOp ''r1'' Uploading (noExtras\<lparr>uploadAttempts' := Some 1\<rparr>)) None
   \<and> events_since (storeOf [recLocal] [])
       (snd (uploadRecording env503 ''r1'' (storeOf [recLocal] []))) ! 2 =
       Fetch (GetUploadUrl ''recording-r1.webm'') (Response 503 (Inl NotAnError))
   \<and> events_since (storeOf [recLocal] [])
       (snd (uploadRecording env503 ''r1'' (storeOf [recLocal] []))) ! 4 =
       Db (UpdateRecordingStatusOp ''r1'' Uploading (noExtras\<lparr>uploadAttempts' := Some 2\<rparr>)) None
   \<and> events_since (storeOf [recLocal] [])
       (snd (uploadRecording env503 ''r1'' (storeOf [recLocal] []))) ! 5 =
       Fetch (GetUploadUrl ''recording-r1.webm'') (Rejected (TypeError ''Failed to fetch''))
   \<and> isNetworkError (TypeError ''Failed to fetch'')
   \<and> events_since (storeOf [recLocal] [])
       (snd (uploadRecording env503 ''r1'' (storeOf [recLocal] []))) ! 6 =
       Db (UpdateRecordingStatusOp ''r1'' Local (noExtras\<lparr>uploadAttempts' := Some 0\<rparr>)) None
   \<and> map uploadAttempts
       (recordings (snd (uploadRecording env503 ''r1'' (storeOf [recLocal] [])))) = [0]
   \<and> (0 :: int) \<noteq> 1"
  by code_simp

section \<open>Reconciling the pending deletes\<close>

lemma handleRetryDeletes_run:
  assumes "dbFault en (now w) = None"
  shows "handleRetryDeletes en w =
           (Inr (), fold step (Db GetAllPendingDeletesOp None
                               # sweep_events en (Suc (now w)) (pendingDeletes w)) w)"
proof -
  have "emit (Db GetAllPendingDeletesOp None) w = step (Db GetAllPendingDeletesOp None) w"
    by (simp add: step_def)
  with assms show ?thesis
    by (simp add: handleRetryDeletes_def getAllPendingDeletes_def retryEach_fold)
qed

text \<open>
  C8 (as amended). In the sweep of \<open>handleRetryDeletes\<close> (its read of the pending deletes
  completing, the entries having distinct ids, as the keys of an object store are), every
  entry is sent one delete request; \<open>removePendingDelete\<close> is called for the entry if and
  only if the reply to that request was OK (\<open>deleteRecordingFromServer\<close> resolved \<open>true\<close>;
  it was not rejected and the status was OK); the entry is gone from the store afterwards
  if and only if that removal completed (the \<open>catch\<close> of the loop swallows the error of a
  removal the store rejects, and the entry stays); so, when no store operation fails, the
  entry is removed if and only if its delete was answered OK, and is retained otherwise.
  No entry is added.
\<close>

theorem pending_delete_removed_iff_deleted:
  assumes "dbFault en (now w) = None" and "distinct (map pd_id (pendingDeletes w))"
    and "x \<in> set (pendingDeletes w)"
  shows "(\<exists>r. Fetch (DeleteRecordingReq (pd_s3Key x) (pd_id x)) r
                \<in> set (events_since w (snd (handleRetryDeletes en w)))
              \<and> (\<forall>k' r'. Fetch (DeleteRecordingReq k' (pd_id x)) r'
                             \<in> set (events_since w (snd (handleRetryDeletes en w)))
                           \<longrightarrow> k' = pd_s3Key x \<and> r' = r)
              \<and> ((\<exists>f. Db (RemovePendingDeleteOp (pd_id x)) f
                         \<in> set (events_since w (snd (handleRetryDeletes en w))))
                    \<longleftrightarrow> replied_ok r)
              \<and> (x \<in> set (pendingDeletes (snd (handleRetryDeletes en w)))
                    \<longleftrightarrow> Db (RemovePendingDeleteOp (pd_id x)) None
                          \<notin> set (events_since w (snd (handleRetryDeletes en w))))
              \<and> ((\<forall>n. dbFault en n = None) \<longrightarrow>
                    (x \<in> set (pendingDeletes (snd (handleRetryDeletes en w))) \<longleftrightarrow> \<not> replied_ok r)))
         \<and> set (pendingDeletes (snd (handleRetryDeletes en w))) \<subseteq> set (pendingDeletes w)"
proof -
  let ?evs = "sweep_events en (Suc (now w)) (pendingDeletes w)"
  let ?w' = "snd (handleRetryDeletes en w)"
  have w': "?w' = fold step (Db GetAllPendingDeletesOp None # ?evs) w"
    using handleRetryDeletes_run [OF assms(1)] by simp
  have ev: "events_since w ?w' = Db GetAllPendingDeletesOp None # ?evs"
    unfolding w' by (rule events_since_fold)
  have shape: "\<forall>e\<in>set ?evs. (\<exists>req r. e = Fetch req r) \<or> (\<exists>i f. e = Db (RemovePendingDeleteOp i) f)"
    using sweep_events_shape [of _ en "Suc (now w)" "pendingDeletes w"] by blast
  have store: "pendingDeletes ?w' =
      filter (\<lambda>y. Db (RemovePendingDeleteOp (pd_id y)) None \<notin> set ?evs) (pendingDeletes w)"
    using sweep_store [OF shape, of "step (Db GetAllPendingDeletesOp None) w"]
    by (simp add: w' step_def)
  from sweep_events_attempted [OF assms(3), of en "Suc (now w)"]
  obtain r where r: "Fetch (DeleteRecordingReq (pd_s3Key x) (pd_id x)) r \<in> set ?evs" by blast
  have once: "k' = pd_s3Key x \<and> r' = r"
    if "Fetch (DeleteRecordingReq k' (pd_id x)) r' \<in> set ?evs" for k' r'
    using sweep_events_once [OF assms(2) that r] by simp
  have removed: "(\<exists>f. Db (RemovePendingDeleteOp (pd_id x)) f \<in> set ?evs) \<longleftrightarrow> replied_ok r"
  proof
    assume "\<exists>f. Db (RemovePendingDeleteOp (pd_id x)) f \<in> set ?evs"
    then obtain f where "Db (RemovePendingDeleteOp (pd_id x)) f \<in> set ?evs" by blast
    from sweep_events_removed [OF this] obtain k' r' where
      "Fetch (DeleteRecordingReq k' (pd_id x)) r' \<in> set ?evs" "replied_ok r'" by blast
    with once show "replied_ok r" by blast
  next
    assume "replied_ok r"
    with sweep_events_deleted [OF r] show "\<exists>f. Db (RemovePendingDeleteOp (pd_id x)) f \<in> set ?evs" .
  qed
  have kept: "x \<in> set (pendingDeletes ?w') \<longleftrightarrow> Db (RemovePendingDeleteOp (pd_id x)) None \<notin> set ?evs"
    using assms(3) by (simp add: store)
  have reliable: "x \<in> set (pendingDeletes ?w') \<longleftrightarrow> \<not> replied_ok r" if "\<forall>n. dbFault en n = None"
  proof -
    have "f = None" if "Db (RemovePendingDeleteOp i) f \<in> set ?evs" for i f
      using sweep_events_shape [OF that] \<open>\<forall>n. dbFault en n = None\<close> by auto
    then have "(\<exists>f. Db (RemovePendingDeleteOp (pd_id x)) f \<in> set ?evs)
                 \<longleftrightarrow> Db (RemovePendingDeleteOp (pd_id x)) None \<in> set ?evs"
      by blast
    with removed kept show ?thesis by simp
  qed
  have sub: "set (pendingDeletes ?w') \<subseteq> set (pendingDeletes w)"
    by (simp add: store)
  have r': "Fetch (DeleteRecordingReq (pd_s3Key x) (pd_id x)) r \<in> set (events_since w ?w')"
    using r by (simp add: ev)
  have once': "\<forall>k' r'. Fetch (DeleteRecordingReq k' (pd_id x)) r' \<in> set (events_since w ?w')
                 \<longrightarrow> k' = pd_s3Key x \<and> r' = r"
    using once by (simp add: ev)
  have removed': "(\<exists>f. Db (RemovePendingDeleteOp (pd_id x)) f \<in> set (events_since w ?w'))
                    \<longleftrightarrow> replied_ok r"
    using removed by (simp add: ev)
  have kept': "x \<in> set (pendingDeletes ?w')
                 \<longleftrightarrow> Db (RemovePendingDeleteOp (pd_id x)) None \<notin> set (events_since w ?w')"
    using kept by (simp add: ev)
  from r' once' removed' kept' reliable sub show ?thesis
    by blast
qed


theorem pending_delete_removed_iff_deleted_witness:
  "(\<exists>r. Fetch (DeleteRecordingReq (pd_s3Key pendingA) (pd_id pendingA)) r
            \<in> set (events_since (storeOf [] [pendingA, pendingB])
                      (snd (handleRetryDeletes envFirstOnly (storeOf [] [pendingA, pendingB]))))
          \<and> replied_ok r)
   \<and> pendingDeletes (snd (handleRetryDeletes envFirstOnly (storeOf [] [pendingA, pendingB]))) =
       [pendingB]
   \<and> events_since (storeOf [] [pendingA, pendingB])
       (snd (handleRetryDeletes envFirstOnly (storeOf [] [pendingA, pendingB]))) =
       [Db GetAllPendingDeletesOp None,
        Fetch (DeleteRecordingReq ''recordings/a.webm'' ''a'') (Response 200 (Inl NotAnError)),
        Db (RemovePendingDeleteOp ''a'') None,
        Fetch (DeleteRecordingReq ''recordings/b.webm'' ''b'') (Response 404 (Inl NotAnError))]"
proof -
  let ?w = "storeOf [] [pendingA, pendingB]"
  have h1: "dbFault envFirstOnly (now ?w) = None" by code_simp
  have h2: "distinct (map pd_id (pendingDeletes ?w))" by code_simp
  have h3: "pendingA \<in> set (pendingDeletes ?w)" by code_simp
  have store: "pendingDeletes (snd (handleRetryDeletes envFirstOnly ?w)) = [pendingB]"
    by code_simp
  have log: "events_since ?w (snd (handleRetryDeletes envFirstOnly ?w)) =
       [Db GetAllPendingDeletesOp None,
        Fetch (DeleteRecordingReq ''recordings/a.webm'' ''a'') (Response 200 (Inl NotAnError)),
        Db (RemovePendingDeleteOp ''a'') None,
        Fetch (DeleteRecordingReq ''recordings/b.webm'' ''b'') (Response 404 (Inl NotAnError))]"
    by code_simp
  have gone: "pendingA \<notin> set (pendingDeletes (snd (handleRetryDeletes envFirstOnly ?w)))"
    by code_simp
  have rel: "\<forall>n. dbFault envFirstOnly n = None"
    by (simp add: envFirstOnly_def envOk_def)
  note th = pending_delete_removed_iff_deleted [OF h1 h2 h3]
  from th obtain r where r: "Fetch (DeleteRecordingReq (pd_s3Key pendingA) (pd_id pendingA)) r
            \<in> set (events_since ?w (snd (handleRetryDeletes envFirstOnly ?w)))"
    and iff: "(\<forall>n. dbFault envFirstOnly n = None) \<longrightarrow>
       (pendingA \<in> set (pendingDeletes (snd (handleRetryDeletes envFirstOnly ?w)))
          \<longleftrightarrow> \<not> replied_ok r)"
    by (elim conjE exE)
  from iff rel gone have "replied_ok r" by simp
  with r have "\<exists>r. Fetch (DeleteRecordingReq (pd_s3Key pendingA) (pd_id pendingA)) r
            \<in> set (events_since ?w (snd (handleRetryDeletes envFirstOnly ?w)))
          \<and> replied_ok r"
    by (intro exI conjI)
  with store log show ?thesis by (intro conjI)
qed

theorem pending_delete_removed_iff_deleted_counterexample:
  "handleRetryDeletes envKept (storeOf [] [pendingA, pendingB]) =
     (Inr (),
      \<lparr> recordings = [], pendingDeletes = [pendingA, pendingB], retryTimer = False,
        trace =
          [Db GetAllPendingDeletesOp None,
           Fetch (DeleteRecordingReq ''recordings/a.webm'' ''a'') (Response 200 (Inl NotAnError)),
           Db (RemovePendingDeleteOp ''a'')
             (Some (DOMException ''AbortError'' ''The transaction was aborted'')),
           Fetch (DeleteRecordingReq ''recordings/b.webm'' ''b'') (Response 404 (Inl NotAnError))] \<rparr>)
   \<and> fst (deleteRecordingFromServer envKept (pd_s3Key pendingA) (pd_id pendingA)
            (emit (Db GetAllPendingDeletesOp None) (storeOf [] [pendingA, pendingB]))) = Inr True
   \<and> pendingA \<in> set (pendingDeletes
                        (snd (handleRetryDeletes envKept (storeOf [] [pendingA, pendingB]))))"
  by code_simp

end
